theory Spec2Isabelle
  imports Complex_Main "HOL-Library.Sublist"
begin

section \<open>Strings as the program has them\<close>

text \<open>
  The scraper is TypeScript: a string is a sequence of UTF-16 code units, indexed and
  compared unit by unit. A code unit is modelled as a natural number, a string as a
  list of them (company names are Japanese, so 8-bit characters would not do).
\<close>

type_synonym jsstring = "nat list"

definition dquote :: nat where "dquote = 34"
definition comma :: nat where "comma = 44"
definition lf :: nat where "lf = 10"
definition cr :: nat where "cr = 13"
definition tab :: nat where "tab = 9"
definition space :: nat where "space = 32"
definition slash :: nat where "slash = 47"

text \<open>
  The code units matched by \<^verbatim>\<open>\s\<close> in a regular expression and removed by
  \<^verbatim>\<open>String.prototype.trim\<close>: ECMAScript WhiteSpace and LineTerminator.
\<close>

definition isWhiteSpace :: "nat \<Rightarrow> bool" where
  "isWhiteSpace c \<longleftrightarrow>
     c \<in> set [9, 10, 11, 12, 13, 32, 160, 5760, 8232, 8233, 8239, 8287, 12288, 65279]
     \<or> (8192 \<le> c \<and> c \<le> 8202)"

definition trim :: "jsstring \<Rightarrow> jsstring" where
  "trim s = rev (dropWhile isWhiteSpace (rev (dropWhile isWhiteSpace s)))"

text \<open>\<^verbatim>\<open>String.prototype.includes\<close> and \<^verbatim>\<open>replace\<close> with a string pattern (first occurrence only).\<close>

fun includesStr :: "jsstring \<Rightarrow> jsstring \<Rightarrow> bool" where
  "includesStr [] needle = (needle = [])"
| "includesStr (c # cs) needle = (prefix needle (c # cs) \<or> includesStr cs needle)"

fun replaceFirst :: "jsstring \<Rightarrow> jsstring \<Rightarrow> jsstring \<Rightarrow> jsstring" where
  "replaceFirst [] needle rep = (if needle = [] then rep else [])"
| "replaceFirst (c # cs) needle rep =
     (if prefix needle (c # cs) then rep @ drop (length needle) (c # cs)
      else c # replaceFirst cs needle rep)"

section \<open>Dedup ledger\<close>

subsection \<open>normalizeCompanyName\<close>

text \<open>
  \<^verbatim>\<open>/\s*PICK UP\s*/gi\<close>: the pattern text, upper case. Without the \<^verbatim>\<open>u\<close> flag a letter of
  the pattern matches exactly its upper-case and lower-case ASCII code units, and the
  blank of the pattern matches the code unit 32 only.
\<close>

definition pickUp :: jsstring where
  "pickUp = [80, 73, 67, 75, 32, 85, 80]"

definition eqIgnoreCase :: "nat \<Rightarrow> nat \<Rightarrow> bool" where
  "eqIgnoreCase p c \<longleftrightarrow> c = p \<or> (65 \<le> p \<and> p \<le> 90 \<and> c = p + 32)"

fun prefixIgnoreCase :: "jsstring \<Rightarrow> jsstring \<Rightarrow> bool" where
  "prefixIgnoreCase [] s = True"
| "prefixIgnoreCase (p # ps) [] = False"
| "prefixIgnoreCase (p # ps) (c # cs) = (eqIgnoreCase p c \<and> prefixIgnoreCase ps cs)"

text \<open>
  One attempt of the pattern at the start of \<open>s\<close>: the greedy \<^verbatim>\<open>\s*\<close> takes the whole
  run of white space (giving some of it back never helps, the next pattern unit is a
  letter), then the marker, then the whole run of white space after it. The result is
  what is left of \<open>s\<close> after the match.
\<close>

definition matchPickUp :: "jsstring \<Rightarrow> jsstring option" where
  "matchPickUp s =
     (let s1 = dropWhile isWhiteSpace s in
      if prefixIgnoreCase pickUp s1
      then Some (dropWhile isWhiteSpace (drop (length pickUp) s1))
      else None)"

text \<open>Global replace by the empty string: leftmost match first, scanning on after each match.\<close>

function removePickUp :: "jsstring \<Rightarrow> jsstring" where
  "removePickUp [] = []"
| "removePickUp (c # cs) =
     (case matchPickUp (c # cs) of
        Some rest \<Rightarrow> removePickUp rest
      | None \<Rightarrow> c # removePickUp cs)"
  by pat_completeness auto
termination
proof (relation "measure length")
  show "wf (measure length)" by simp
next
  fix c :: nat and cs rest :: jsstring
  assume m: "matchPickUp (c # cs) = Some rest"
  let ?s1 = "dropWhile isWhiteSpace (c # cs)"
  from m have p: "prefixIgnoreCase pickUp ?s1"
    and r: "rest = dropWhile isWhiteSpace (drop (length pickUp) ?s1)"
    by (auto simp: matchPickUp_def Let_def split: if_splits)
  from p have "?s1 \<noteq> []" by (cases ?s1) (simp_all add: pickUp_def)
  then have "length (drop (length pickUp) ?s1) < length ?s1" by (simp add: pickUp_def)
  moreover have "length rest \<le> length (drop (length pickUp) ?s1)"
    unfolding r by (rule length_dropWhile_le)
  moreover have "length ?s1 \<le> length (c # cs)" by (rule length_dropWhile_le)
  ultimately have "length rest < length (c # cs)" by linarith
  then show "(rest, c # cs) \<in> measure length"
    by simp
next
  fix c :: nat and cs :: jsstring
  show "(cs, c # cs) \<in> measure length" by simp
qed

text \<open>
  \<^verbatim>\<open>replace(/[\n\r\t]+/g, ' ')\<close> and \<^verbatim>\<open>replace(/\s+/g, ' ')\<close>: every maximal run of
  code units of the class becomes one blank.
\<close>

definition isLineBreakOrTab :: "nat \<Rightarrow> bool" where
  "isLineBreakOrTab c \<longleftrightarrow> c = lf \<or> c = cr \<or> c = tab"

function collapseRuns :: "(nat \<Rightarrow> bool) \<Rightarrow> jsstring \<Rightarrow> jsstring" where
  "collapseRuns p [] = []"
| "collapseRuns p (c # cs) =
     (if p c then space # collapseRuns p (dropWhile p cs) else c # collapseRuns p cs)"
  by pat_completeness auto
termination
  by (relation "measure (\<lambda>(p, s). length s)")
     (auto simp: length_dropWhile_le less_Suc_eq_le)

definition normalizeCompanyName :: "jsstring \<Rightarrow> jsstring" where
  "normalizeCompanyName companyName =
     trim (collapseRuns isWhiteSpace (collapseRuns isLineBreakOrTab (removePickUp (trim companyName))))"

subsection \<open>The identity set\<close>

text \<open>
  \<^verbatim>\<open>existingCompanies\<close> is a \<^verbatim>\<open>Set<string>\<close> mutated in place; the model returns the
  set after the call next to the result. \<^verbatim>\<open>!companyName\<close> is true of the empty string only.
\<close>

definition checkCompanyExists :: "jsstring \<Rightarrow> jsstring set \<Rightarrow> bool" where
  "checkCompanyExists companyName existingCompanies =
     (if companyName = [] then False
      else normalizeCompanyName companyName \<in> existingCompanies)"

definition checkAndAddCompany :: "jsstring \<Rightarrow> jsstring set \<Rightarrow> bool \<times> jsstring set" where
  "checkAndAddCompany companyName existingCompanies =
     (if companyName = [] then (False, existingCompanies)
      else let normalized = normalizeCompanyName companyName in
        if normalized \<in> existingCompanies then (True, existingCompanies)
        else (False, insert normalized existingCompanies))"


section \<open>The output ledger (CSV)\<close>

text \<open>
  \<^verbatim>\<open>InternshipRow\<close> is a pair of heading and value. The field \<^verbatim>\<open>tableJson\<close> holds the
  value handed to \<^verbatim>\<open>JSON.stringify\<close>; its text is never written to the ledger.
\<close>

type_synonym internshipRow = "jsstring \<times> jsstring"

datatype tableJsonValue = JsonOfText jsstring | JsonOfRows "internshipRow list"

record csvRecord =
  companyName :: jsstring
  phone :: jsstring
  email :: jsstring
  industry :: jsstring
  headOffice :: jsstring
  tableUrl :: jsstring
  tableJson :: tableJsonValue
  annualRecruitment :: jsstring
  companySize :: jsstring

subsection \<open>Writing: escapeCsvValue and the line of appendCsvRecord\<close>

definition escapeCsvValue :: "jsstring \<Rightarrow> jsstring" where
  "escapeCsvValue v = concat (map (\<lambda>c. if c = dquote then [dquote, dquote] else [c]) v)"

text \<open>One field of the template literal: \<^verbatim>\<open>"${escapeCsvValue(x)}"\<close>.\<close>

definition quoted :: "jsstring \<Rightarrow> jsstring" where
  "quoted v = dquote # escapeCsvValue v @ [dquote]"

text \<open>The list source: the site name in katakana (four code units), then the timestamp in parentheses; the timestamp text comes from the clock.\<close>

definition listSourceOf :: "jsstring \<Rightarrow> jsstring" where
  "listSourceOf timestamp = [12510, 12452, 12490, 12499, 40] @ timestamp @ [41]"

text \<open>The template literal of \<^verbatim>\<open>appendCsvRecord\<close>, field by field, with its final line feed.\<close>

definition csvLine :: "csvRecord \<Rightarrow> jsstring \<Rightarrow> jsstring" where
  "csvLine record listSource =
     quoted [] @ [comma] @ quoted [] @ [comma] @ quoted [] @ [comma] @ quoted [] @ [comma] @
     quoted [] @ [comma] @ quoted [] @ [comma] @ quoted [] @ [comma] @
     quoted (companyName record) @ [comma] @ quoted (phone record) @ [comma] @
     quoted (email record) @ [comma] @ quoted [] @ [comma] @ quoted [] @ [comma] @
     quoted (tableUrl record) @ [comma] @ quoted listSource @ [comma] @
     quoted (companySize record) @ [comma] @ quoted (industry record) @ [comma] @
     quoted (headOffice record) @ [comma] @ quoted (annualRecruitment record) @ [comma] @
     quoted [] @ [comma] @ quoted [] @ [lf]"

text \<open>The \<^verbatim>\<open>row\<close> array sent to the relay: the same twenty values, unescaped.\<close>

definition gasRow :: "csvRecord \<Rightarrow> jsstring \<Rightarrow> jsstring list" where
  "gasRow record listSource =
     [[], [], [], [], [], [], [],
      companyName record, phone record, email record,
      [], [],
      tableUrl record, listSource, companySize record, industry record,
      headOffice record, annualRecruitment record,
      [], []]"

text \<open>Quoted fields with commas between them, as the template literal lays them out.\<close>

fun joinFields :: "jsstring list \<Rightarrow> jsstring" where
  "joinFields [] = []"
| "joinFields [f] = quoted f"
| "joinFields (f # g # fs) = quoted f @ [comma] @ joinFields (g # fs)"

subsection \<open>Reading: parseCsvContent\<close>

text \<open>\<^verbatim>\<open>currentRow.length > 0 && currentRow.some(f => f.trim())\<close>\<close>

definition rowHasContent :: "jsstring list \<Rightarrow> bool" where
  "rowHasContent row \<longleftrightarrow> row \<noteq> [] \<and> list_ex (\<lambda>f. trim f \<noteq> []) row"

definition pushRow :: "jsstring list list \<Rightarrow> jsstring list \<Rightarrow> jsstring list list" where
  "pushRow rows row = (if rowHasContent row then rows @ [row] else rows)"

text \<open>\<^verbatim>\<open>content[i + 1] === x\<close>; past the end the read gives \<^verbatim>\<open>undefined\<close>, which equals nothing.\<close>

definition nextIs :: "nat \<Rightarrow> jsstring \<Rightarrow> bool" where
  "nextIs x cs = (case cs of [] \<Rightarrow> False | d # _ \<Rightarrow> d = x)"

text \<open>
  The \<^verbatim>\<open>while (i < content.length)\<close> loop, with the text from index \<open>i\<close> on as the last
  argument and the loop variables \<open>rows\<close>, \<open>currentRow\<close>, \<open>currentField\<close>, \<open>inQuotes\<close> before it.
  The first equation is the code after the loop.
\<close>

fun parseCsvFrom ::
  "jsstring list list \<Rightarrow> jsstring list \<Rightarrow> jsstring \<Rightarrow> bool \<Rightarrow> jsstring \<Rightarrow> jsstring list list" where
  "parseCsvFrom rows currentRow currentField inQuotes [] =
     (if currentField \<noteq> [] \<or> currentRow \<noteq> []
      then pushRow rows (currentRow @ [currentField])
      else rows)"
| "parseCsvFrom rows currentRow currentField inQuotes (c # cs) =
     (if c = dquote then
        (if inQuotes \<and> nextIs dquote cs
         then parseCsvFrom rows currentRow (currentField @ [dquote]) inQuotes (tl cs)
         else parseCsvFrom rows currentRow currentField (\<not> inQuotes) cs)
      else if c = comma \<and> \<not> inQuotes then
        parseCsvFrom rows (currentRow @ [currentField]) [] inQuotes cs
      else if (c = lf \<or> c = cr) \<and> \<not> inQuotes then
        (if c = cr \<and> nextIs lf cs
         then parseCsvFrom (pushRow rows (currentRow @ [currentField])) [] [] inQuotes (tl cs)
         else parseCsvFrom (pushRow rows (currentRow @ [currentField])) [] [] inQuotes cs)
      else parseCsvFrom rows currentRow (currentField @ [c]) inQuotes cs)"

definition parseCsvContent :: "jsstring \<Rightarrow> jsstring list list" where
  "parseCsvContent content = parseCsvFrom [] [] [] False content"

subsection \<open>Seeding the identity set from the file\<close>

text \<open>
  The loop body of \<^verbatim>\<open>loadExistingCompanyNames\<close> for one data row; the company name is
  the eighth column.
\<close>

definition seedRow :: "jsstring set \<Rightarrow> jsstring list \<Rightarrow> jsstring set" where
  "seedRow companies cols =
     (if length cols > 7 then
        (let name = trim (cols ! 7) in
         if name \<noteq> [] then
           (let normalized = normalizeCompanyName name in
            if normalized \<noteq> [] then insert normalized companies else companies)
         else companies)
      else companies)"

text \<open>The file content is \<open>None\<close> when the file does not exist.\<close>

definition loadExistingCompanyNames :: "jsstring option \<Rightarrow> jsstring set" where
  "loadExistingCompanyNames file =
     (case file of
        None \<Rightarrow> {}
      | Some content \<Rightarrow> foldl seedRow {} (drop 1 (parseCsvContent content)))"


subsection \<open>The header line\<close>

text \<open>\<^verbatim>\<open>split(x)\<close> and \<^verbatim>\<open>join(x)\<close> for a one-unit separator.\<close>

fun splitOn :: "nat \<Rightarrow> jsstring \<Rightarrow> jsstring list" where
  "splitOn x [] = [[]]"
| "splitOn x (c # cs) =
     (if c = x then [] # splitOn x cs
      else (case splitOn x cs of [] \<Rightarrow> [[c]] | l # ls \<Rightarrow> (c # l) # ls))"

fun joinWith :: "nat \<Rightarrow> jsstring list \<Rightarrow> jsstring" where
  "joinWith x [] = []"
| "joinWith x [l] = l"
| "joinWith x (l # m # ls) = l @ x # joinWith x (m # ls)"

text \<open>
  The string literal \<^verbatim>\<open>header\<close> of \<^verbatim>\<open>ensureCsvHeader\<close>: the twenty column titles with
  commas between them and a line feed at the end.
\<close>

definition headerColumns :: "jsstring list" where
  "headerColumns =
     [[26085, 20184],
      [25285, 24403, 32773],
      [28201, 24230, 24863],
      [21463, 20184, 12502, 12525, 12483, 12463],
      [21830, 35527, 20013],
      [21942, 26989, 30446, 30340],
      [25505, 29992, 12479, 12540, 12466, 12483, 12488],
      [20225, 26989, 21517],
      [38651, 35441, 30058, 21495],
      [12513, 12540, 12523, 12450, 12489, 12524, 12473],
      [72, 80],
      [25285, 24403, 32773, 27096],
      [20633, 32771],
      [12522, 12473, 12488, 20803],
      [20225, 26989, 35215, 27169],
      [26989, 30028],
      [26412, 31038, 22320, 22495],
      [24180, 38291, 25505, 29992, 20154, 25968],
      [19978, 22580],
      [23646, 24615]]"

definition csvHeader :: jsstring where
  "csvHeader = joinWith comma headerColumns @ [lf]"

text \<open>
  What \<^verbatim>\<open>ensureCsvHeader\<close> leaves in the output file, given what is there (\<open>None\<close>: no
  file). A file whose first line is not the header gets the trimmed header in place of
  that line; the other lines are joined back as they were split.
\<close>

definition withCsvHeader :: "jsstring option \<Rightarrow> jsstring" where
  "withCsvHeader file =
     (case file of
        None \<Rightarrow> csvHeader
      | Some content \<Rightarrow>
          (let firstLine = (case splitOn lf content of [] \<Rightarrow> [] | l # _ \<Rightarrow> l) in
           if trim firstLine \<noteq> trim csvHeader
           then joinWith lf (trim csvHeader # drop 1 (splitOn lf content))
           else content))"


section \<open>Configuration\<close>

text \<open>ASCII text of the source as code units.\<close>

definition ascii :: "string \<Rightarrow> jsstring" where
  "ascii s = map of_char s"

text \<open>
  A value of the parsed configuration file as the checks of \<^verbatim>\<open>loadConfig\<close> see it:
  \<^verbatim>\<open>typeof\<close> and truthiness. JSON numbers are finite, so a rational stands for one.
\<close>

datatype json = JUndefined | JNull | JBool bool | JNum rat | JStr jsstring | JOther

fun truthy :: "json \<Rightarrow> bool" where
  "truthy JUndefined = False"
| "truthy JNull = False"
| "truthy (JBool b) = b"
| "truthy (JNum n) = (n \<noteq> 0)"
| "truthy (JStr s) = (s \<noteq> [])"
| "truthy JOther = True"

text \<open>
  \<^verbatim>\<open>Partial<MynaviConfig>\<close> after \<^verbatim>\<open>JSON.parse\<close>. The three fields that \<^verbatim>\<open>loadConfig\<close> checks
  with \<^verbatim>\<open>typeof\<close> are untyped values; the four it copies are taken at their declared
  type \<^verbatim>\<open>string | undefined\<close>.
\<close>

record parsedConfig =
  pSEARCH_URL :: json
  pSTART_PAGE :: json
  pMAX_COMPANIES :: json
  pSPREADSHEET_URL :: "jsstring option"
  pCSV_PATH :: "jsstring option"
  pGAS_UPLOAD_URL :: "jsstring option"
  pGAS_UPLOAD_TOKEN :: "jsstring option"

record mynaviConfig =
  SEARCH_URL :: jsstring
  START_PAGE :: nat
  MAX_COMPANIES :: "nat option"
  SPREADSHEET_URL :: "jsstring option"
  CSV_PATH :: "jsstring option"
  GAS_UPLOAD_URL :: "jsstring option"
  GAS_UPLOAD_TOKEN :: "jsstring option"

datatype configError =
    SearchUrlUndefined
  | ConfigUnreadable
  | SpreadsheetUrlMissing
  | CsvPathMissing

text \<open>
  \<^verbatim>\<open>parseInt(s, 10)\<close>: leading white space, an optional sign, then the longest run of
  decimal digits; \<open>None\<close> is \<^verbatim>\<open>NaN\<close>. (A digit run too long for a double gives
  \<^verbatim>\<open>Infinity\<close> in the source; the model keeps the integer.)
\<close>

definition isDigit :: "nat \<Rightarrow> bool" where
  "isDigit c \<longleftrightarrow> 48 \<le> c \<and> c \<le> 57"

definition digitsValue :: "jsstring \<Rightarrow> nat" where
  "digitsValue ds = foldl (\<lambda>a c. 10 * a + (c - 48)) 0 ds"

definition parseInt10 :: "jsstring \<Rightarrow> int option" where
  "parseInt10 s =
     (let s1 = dropWhile isWhiteSpace s;
          neg = (case s1 of [] \<Rightarrow> False | c # _ \<Rightarrow> c = 45);
          s2 = (case s1 of [] \<Rightarrow> [] | c # r \<Rightarrow> if c = 45 \<or> c = 43 then r else s1);
          ds = takeWhile isDigit s2
      in if ds = [] then None
         else Some (if neg then - int (digitsValue ds) else int (digitsValue ds)))"

text \<open>The \<^verbatim>\<open>MAX_COMPANIES\<close> of the environment, when it is set, non-empty and at least 1.\<close>

definition envMaxCompanies :: "jsstring option \<Rightarrow> nat option" where
  "envMaxCompanies env =
     (case env of
        None \<Rightarrow> None
      | Some v \<Rightarrow>
          if v = [] then None
          else (case parseInt10 v of
                  None \<Rightarrow> None
                | Some n \<Rightarrow> if n \<ge> 1 then Some (nat n) else None))"

text \<open>
  The \<^verbatim>\<open>try\<close> block of \<^verbatim>\<open>loadConfig\<close>. The file is \<open>None\<close> when reading or parsing it
  throws; \<open>Inl\<close> is a thrown error.
\<close>

definition loadConfigTry :: "parsedConfig option \<Rightarrow> jsstring option \<Rightarrow> configError + mynaviConfig" where
  "loadConfigTry file env =
     (case file of
        None \<Rightarrow> Inl ConfigUnreadable
      | Some parsed \<Rightarrow>
          (case pSEARCH_URL parsed of
             JStr url \<Rightarrow>
               if url = [] then Inl SearchUrlUndefined
               else
                 (let startPage =
                        (case pSTART_PAGE parsed of
                           JNum n \<Rightarrow> if n \<ge> 1 then nat \<lfloor>n\<rfloor> else 1
                         | _ \<Rightarrow> 1);
                      maxCompanies =
                        (case envMaxCompanies env of
                           Some m \<Rightarrow> Some m
                         | None \<Rightarrow>
                             (case pMAX_COMPANIES parsed of
                                JNum n \<Rightarrow> if n \<ge> 1 then Some (nat \<lfloor>n\<rfloor>) else None
                              | _ \<Rightarrow> None))
                  in Inr \<lparr>SEARCH_URL = url,
                          START_PAGE = startPage,
                          MAX_COMPANIES = maxCompanies,
                          SPREADSHEET_URL = pSPREADSHEET_URL parsed,
                          CSV_PATH = pCSV_PATH parsed,
                          GAS_UPLOAD_URL = pGAS_UPLOAD_URL parsed,
                          GAS_UPLOAD_TOKEN = pGAS_UPLOAD_TOKEN parsed\<rparr>)
           | _ \<Rightarrow> Inl SearchUrlUndefined))"

text \<open>The object returned by the \<^verbatim>\<open>catch\<close> block.\<close>

definition defaultConfig :: mynaviConfig where
  "defaultConfig =
     \<lparr>SEARCH_URL = ascii ''https://job.mynavi.jp/27/pc/corpinfo/searchCorpListByGenCond/index/?cond=HR:13,14,25,26,27,28,29,30/ER:1'',
      START_PAGE = 1,
      MAX_COMPANIES = None,
      SPREADSHEET_URL = None,
      CSV_PATH = None,
      GAS_UPLOAD_URL = None,
      GAS_UPLOAD_TOKEN = None\<rparr>"

text \<open>\<^verbatim>\<open>loadConfig\<close>: every error of the \<^verbatim>\<open>try\<close> block is caught and logged.\<close>

definition loadConfig :: "parsedConfig option \<Rightarrow> jsstring option \<Rightarrow> mynaviConfig" where
  "loadConfig file env =
     (case loadConfigTry file env of
        Inl err \<Rightarrow> defaultConfig
      | Inr config \<Rightarrow> config)"

text \<open>\<^verbatim>\<open>!x\<close> on a \<^verbatim>\<open>string | undefined\<close>: undefined or empty.\<close>

definition missing :: "jsstring option \<Rightarrow> bool" where
  "missing x \<longleftrightarrow> (case x of None \<Rightarrow> True | Some v \<Rightarrow> v = [])"

record gasConfig =
  uploadUrl :: jsstring
  token :: "jsstring option"

definition getGasConfig :: "mynaviConfig \<Rightarrow> gasConfig option" where
  "getGasConfig config =
     (case GAS_UPLOAD_URL config of
        None \<Rightarrow> None
      | Some url \<Rightarrow>
          if url = [] then None
          else Some \<lparr>uploadUrl = url, token = GAS_UPLOAD_TOKEN config\<rparr>)"

text \<open>\<^verbatim>\<open>RequiredSheetConfig\<close>, fields \<^verbatim>\<open>spreadsheetUrl\<close> and \<^verbatim>\<open>csvPath\<close>.\<close>

record requiredSheetConfig =
  sheetUrl :: jsstring
  sheetCsvPath :: jsstring

definition getSheetConfig :: "mynaviConfig \<Rightarrow> configError + requiredSheetConfig" where
  "getSheetConfig config =
     (case SPREADSHEET_URL config of
        None \<Rightarrow> Inl SpreadsheetUrlMissing
      | Some url \<Rightarrow>
          if url = [] then Inl SpreadsheetUrlMissing
          else (case CSV_PATH config of
                  None \<Rightarrow> Inl CsvPathMissing
                | Some path \<Rightarrow>
                    if path = [] then Inl CsvPathMissing
                    else Inr \<lparr>sheetUrl = url, sheetCsvPath = path\<rparr>))"


section \<open>Session capture and replay\<close>

text \<open>
  \<^verbatim>\<open>/\/spreadsheets\/d\/([^/]+)/\<close> on the spreadsheet URL: the leftmost place where the
  marker is followed by at least one code unit other than a slash; the group is the
  longest run of such units.
\<close>

definition sheetMarker :: jsstring where
  "sheetMarker = ascii ''/spreadsheets/d/''"

fun matchSheetId :: "jsstring \<Rightarrow> jsstring option" where
  "matchSheetId [] = None"
| "matchSheetId (c # cs) =
     (if prefix sheetMarker (c # cs)
         \<and> takeWhile (\<lambda>x. x \<noteq> slash) (drop (length sheetMarker) (c # cs)) \<noteq> []
      then Some (takeWhile (\<lambda>x. x \<noteq> slash) (drop (length sheetMarker) (c # cs)))
      else matchSheetId cs)"

datatype syncError =
    UrlFormatError
  | ConfigError configError
  | DownloadFailed nat
  | RequestFailed
  | CaptureFailed

definition buildCsvExportUrl :: "jsstring \<Rightarrow> syncError + jsstring" where
  "buildCsvExportUrl url =
     (case matchSheetId url of
        None \<Rightarrow> Inl UrlFormatError
      | Some sheetId \<Rightarrow>
          Inr (ascii ''https://docs.google.com/spreadsheets/d/'' @ sheetId @ ascii ''/export?format=csv''))"

text \<open>
  \<^verbatim>\<open>StorageState\<close> is opaque to the program: it is read from the browser, written to the
  session file and handed back to the browser. The model keeps its JSON text.
\<close>

type_synonym storageState = jsstring

text \<open>What the outside does, as far as the program can tell.\<close>

datatype httpOutcome =
    NoResponse
  | HttpResponse nat jsstring

datatype sessionEvent =
    Download storageState jsstring
  | Capture jsstring
  | SaveSession storageState

text \<open>
  The remote service and the operator: the answer to the export request made with a
  given state as the \<open>n\<close>-th action of the run, and the state the interactive capture
  ends with (\<open>None\<close> when the browser cannot be started or reached, or navigation fails).
\<close>

record sessionWorld =
  exportAnswer :: "nat \<Rightarrow> storageState \<Rightarrow> jsstring \<Rightarrow> httpOutcome"
  captured :: "nat \<Rightarrow> jsstring \<Rightarrow> storageState option"

text \<open>
  The session file (\<open>None\<close>: no file, or not parsable, which \<^verbatim>\<open>loadSession\<close> treats alike)
  and what has been done so far, oldest first.
\<close>

record sessionRun =
  sessionFile :: "storageState option"
  sessionTrace :: "sessionEvent list"

definition loadSession :: "sessionRun \<Rightarrow> storageState option" where
  "loadSession run = sessionFile run"

definition saveSession :: "storageState \<Rightarrow> sessionRun \<Rightarrow> sessionRun" where
  "saveSession state run =
     run\<lparr>sessionFile := Some state, sessionTrace := sessionTrace run @ [SaveSession state]\<rparr>"

text \<open>What \<^verbatim>\<open>downloadCsvWithSession\<close> makes of the answer: the body, or a thrown error.\<close>

definition responseText :: "httpOutcome \<Rightarrow> syncError + jsstring" where
  "responseText answer =
     (case answer of
        NoResponse \<Rightarrow> Inl RequestFailed
      | HttpResponse status body \<Rightarrow>
          if status \<noteq> 200 then Inl (DownloadFailed status) else Inr body)"

definition downloadCsvWithSession ::
  "sessionWorld \<Rightarrow> storageState \<Rightarrow> jsstring \<Rightarrow> sessionRun \<Rightarrow> (syncError + jsstring) \<times> sessionRun" where
  "downloadCsvWithSession w state csvUrl run =
     (responseText (exportAnswer w (length (sessionTrace run)) state csvUrl),
      run\<lparr>sessionTrace := sessionTrace run @ [Download state csvUrl]\<rparr>)"

definition captureSessionInteractive ::
  "sessionWorld \<Rightarrow> jsstring \<Rightarrow> sessionRun \<Rightarrow> (syncError + storageState) \<times> sessionRun" where
  "captureSessionInteractive w spreadsheetUrl run =
     (let run1 = run\<lparr>sessionTrace := sessionTrace run @ [Capture spreadsheetUrl]\<rparr> in
      case captured w (length (sessionTrace run)) spreadsheetUrl of
        None \<Rightarrow> (Inl CaptureFailed, run1)
      | Some storageState \<Rightarrow> (Inr storageState, saveSession storageState run1))"

text \<open>The last two statements of \<^verbatim>\<open>ensureSessionAndDownload\<close>.\<close>

definition captureAndDownload ::
  "sessionWorld \<Rightarrow> jsstring \<Rightarrow> jsstring \<Rightarrow> sessionRun \<Rightarrow> (syncError + jsstring) \<times> sessionRun" where
  "captureAndDownload w spreadsheetUrl csvUrl run =
     (case captureSessionInteractive w spreadsheetUrl run of
        (Inl err, run1) \<Rightarrow> (Inl err, run1)
      | (Inr updatedState, run1) \<Rightarrow> downloadCsvWithSession w updatedState csvUrl run1)"

definition ensureSessionAndDownload ::
  "sessionWorld \<Rightarrow> jsstring \<Rightarrow> sessionRun \<Rightarrow> (syncError + jsstring) \<times> sessionRun" where
  "ensureSessionAndDownload w spreadsheetUrl run =
     (case buildCsvExportUrl spreadsheetUrl of
        Inl err \<Rightarrow> (Inl err, run)
      | Inr csvUrl \<Rightarrow>
          (case loadSession run of
             None \<Rightarrow> captureAndDownload w spreadsheetUrl csvUrl run
           | Some existingState \<Rightarrow>
               (case downloadCsvWithSession w existingState csvUrl run of
                  (Inr text, run1) \<Rightarrow> (Inr text, run1)
                | (Inl err, run1) \<Rightarrow> captureAndDownload w spreadsheetUrl csvUrl run1)))"

text \<open>How many interactive captures a run made.\<close>

definition captureCount :: "sessionEvent list \<Rightarrow> nat" where
  "captureCount tr = length (filter (\<lambda>e. case e of Capture _ \<Rightarrow> True | _ \<Rightarrow> False) tr)"


section \<open>The start of the program\<close>

definition TOP_URL :: jsstring where
  "TOP_URL = ascii ''https://job.mynavi.jp/27/pc/''"

text \<open>
  The machine as \<^verbatim>\<open>main\<close> meets it: the text files by path (\<open>None\<close>: no file), the paths
  on which a file operation throws, \<^verbatim>\<open>resolveCsvPath\<close> (it depends on the directory of the
  script), the path \<^verbatim>\<open>OUTPUT_CSV\<close>, whether the browser starts, which pages open, and
  whether the operator ever presses Enter after logging in.
\<close>

record host =
  files :: "jsstring \<Rightarrow> jsstring option"
  fsFails :: "jsstring \<Rightarrow> bool"
  resolveCsvPath :: "jsstring \<Rightarrow> jsstring"
  OUTPUT_CSV :: jsstring
  browserLaunches :: bool
  pageOpens :: "jsstring \<Rightarrow> bool"
  loginConfirmed :: bool

text \<open>The errors that reach \<^verbatim>\<open>main().catch\<close> before the crawl starts.\<close>

datatype startupError =
    SyncFailed syncError
  | FileFailed jsstring
  | LaunchFailed
  | NavigationFailed jsstring

text \<open>
  \<^verbatim>\<open>downloadCsvFromSpreadsheet\<close>: without both fields the sync is skipped; otherwise the
  text downloaded is written to the resolved CSV path.
\<close>

definition downloadCsvFromSpreadsheet ::
  "sessionWorld \<Rightarrow> mynaviConfig \<Rightarrow> host \<Rightarrow> sessionRun \<Rightarrow> (startupError + host) \<times> sessionRun" where
  "downloadCsvFromSpreadsheet w config h run =
     (if missing (SPREADSHEET_URL config) \<or> missing (CSV_PATH config) then (Inr h, run)
      else
        (case getSheetConfig config of
           Inl err \<Rightarrow> (Inl (SyncFailed (ConfigError err)), run)
         | Inr sheet \<Rightarrow>
             (case ensureSessionAndDownload w (sheetUrl sheet) run of
                (Inl err, run1) \<Rightarrow> (Inl (SyncFailed err), run1)
              | (Inr csvText, run1) \<Rightarrow>
                  (let outputPath = resolveCsvPath h (sheetCsvPath sheet) in
                   if fsFails h outputPath then (Inl (FileFailed outputPath), run1)
                   else (Inr (h\<lparr>files := (files h)(outputPath := Some csvText)\<rparr>), run1)))))"

text \<open>\<^verbatim>\<open>ensureCsvHeader\<close> on the output file.\<close>

definition ensureCsvHeader :: "host \<Rightarrow> startupError + host" where
  "ensureCsvHeader h =
     (if fsFails h (OUTPUT_CSV h) then Inl (FileFailed (OUTPUT_CSV h))
      else Inr (h\<lparr>files := (files h)(OUTPUT_CSV h := Some (withCsvHeader (files h (OUTPUT_CSV h))))\<rparr>))"

text \<open>What \<^verbatim>\<open>main\<close> has when it calls \<^verbatim>\<open>processAllCompaniesFromSearch\<close>.\<close>

record started =
  startConfig :: mynaviConfig
  startGas :: "gasConfig option"
  startHost :: host
  startSession :: sessionRun
  startExisting :: "jsstring set"

text \<open>
  The module constants \<^verbatim>\<open>CONFIG\<close> and \<^verbatim>\<open>GAS_CONFIG\<close>, then \<^verbatim>\<open>main\<close> up to the call of
  \<^verbatim>\<open>processAllCompaniesFromSearch\<close>: the sync, the header, the identity set, the
  browser, the top page, the wait for the operator, the search page. \<open>Some (Inl err)\<close> is
  an error thrown to \<^verbatim>\<open>main().catch\<close>; \<open>None\<close> is the wait that never ends.
\<close>

definition startup ::
  "sessionWorld \<Rightarrow> parsedConfig option \<Rightarrow> jsstring option \<Rightarrow> host \<Rightarrow> sessionRun
     \<Rightarrow> (startupError + started) option" where
  "startup w file env h run =
     (let config = loadConfig file env; gas = getGasConfig config in
      case downloadCsvFromSpreadsheet w config h run of
        (Inl err, run1) \<Rightarrow> Some (Inl err)
      | (Inr h1, run1) \<Rightarrow>
          (case ensureCsvHeader h1 of
             Inl err \<Rightarrow> Some (Inl err)
           | Inr h2 \<Rightarrow>
               (let existing = loadExistingCompanyNames (files h2 (OUTPUT_CSV h2)) in
                if \<not> browserLaunches h2 then Some (Inl LaunchFailed)
                else if \<not> pageOpens h2 TOP_URL then Some (Inl (NavigationFailed TOP_URL))
                else if \<not> loginConfirmed h2 then None
                else if \<not> pageOpens h2 (SEARCH_URL config)
                  then Some (Inl (NavigationFailed (SEARCH_URL config)))
                else Some (Inr \<lparr>startConfig = config, startGas = gas, startHost = h2,
                                 startSession = run1, startExisting = existing\<rparr>))))"

text \<open>
  The exit status when the program ends during the start: \<^verbatim>\<open>main().catch\<close> calls
  \<^verbatim>\<open>process.exit(1)\<close>. Otherwise the program goes on (or waits).
\<close>

definition exitStatus :: "(startupError + started) option \<Rightarrow> nat option" where
  "exitStatus result = (case result of Some (Inl err) \<Rightarrow> Some 1 | _ \<Rightarrow> None)"


section \<open>The crawl\<close>

subsection \<open>The outside world and the state of a run\<close>

record courseData =
  courseCompanyName :: jsstring
  tableRows :: "internshipRow list"
  phones :: "jsstring list"
  emails :: "jsstring list"
  sourceUrl :: jsstring

record companyMeta =
  metaIndustry :: jsstring
  metaHeadOffice :: jsstring
  metaAnnualRecruitment :: jsstring
  metaCompanySize :: jsstring

text \<open>
  What \<^verbatim>\<open>extractInternshipTable\<close> gives for a URL: it throws (navigation fails), returns
  \<^verbatim>\<open>null\<close> (no table within the timeout) or returns the table with the phones and
  emails its regular expressions found.
\<close>

datatype tableResult = TableThrows | TableMissing | TableFound courseData

text \<open>
  The company pages: opening the outline page and reading it throws, or gives the raw
  attributes and the URL the browser ended on; then whether the internship page opens,
  and the course links found on it (none when the query fails).
\<close>

datatype outlineResult = OutlineThrows | Outline companyMeta jsstring

record companySite =
  outline :: outlineResult
  isPageOpens :: bool
  courseLinks :: "jsstring list"

text \<open>\<^verbatim>\<open>page.$('#lowerNextPage')\<close> and its \<^verbatim>\<open>class\<close> attribute.\<close>

datatype nextButton = NoButton | Button "jsstring option"

record searchPage =
  companyData :: "(jsstring \<times> jsstring) list"
  nextPage :: nextButton

datatype fetchOutcome = FetchAborted | FetchError | FetchResponse nat jsstring

datatype gasError = GasUrlInvalid | GasTimeout | GasNetwork | GasRejected nat jsstring

record gasRequest =
  requestUrl :: jsstring
  requestRow :: "jsstring list"
  requestToken :: jsstring
  authHeader :: "jsstring option"
  timeoutMs :: nat

text \<open>
  What a run does that can be seen from outside, one event for each. The trace of a run
  is also its clock: the flags \<^verbatim>\<open>shouldStop\<close> and \<^verbatim>\<open>isPaused\<close> are set by key presses and
  signals between two events, so the program reads them as functions of the number of
  events so far.
\<close>

datatype event =
    PauseSleep
  | OpenDetailPage
  | CloseDetailPage
  | Delay nat
  | Goto jsstring
  | ExtractTable jsstring
  | AppendCsv jsstring
  | PostGas gasRequest
  | LogGasReply jsstring
  | LogGasError gasError
  | ClickNext

record world =
  shouldStopAt :: "nat \<Rightarrow> bool"
  isPausedAt :: "nat \<Rightarrow> bool"
  searchPageAt :: "nat \<Rightarrow> searchPage"
  siteOf :: "jsstring \<Rightarrow> companySite"
  tableAt :: "jsstring \<Rightarrow> tableResult"
  timestampAt :: "nat \<Rightarrow> jsstring"
  urlParses :: "jsstring \<Rightarrow> bool"
  fetchAt :: "nat \<Rightarrow> fetchOutcome"

record crawl =
  trace :: "event list"
  existingCompanies :: "jsstring set"
  csvFile :: jsstring
  addedCompanyCount :: nat

definition DELAY_MS :: nat where "DELAY_MS = 300"

definition emit :: "event list \<Rightarrow> crawl \<Rightarrow> crawl" where
  "emit es s = s\<lparr>trace := trace s @ es\<rparr>"

definition shouldStop :: "world \<Rightarrow> crawl \<Rightarrow> bool" where
  "shouldStop w s = shouldStopAt w (length (trace s))"

definition isPaused :: "world \<Rightarrow> crawl \<Rightarrow> bool" where
  "isPaused w s = isPausedAt w (length (trace s))"

text \<open>\<^verbatim>\<open>maxCompanies !== undefined && addedCompanyCount >= maxCompanies\<close>\<close>

definition capReached :: "nat option \<Rightarrow> crawl \<Rightarrow> bool" where
  "capReached maxCompanies s =
     (case maxCompanies of None \<Rightarrow> False | Some m \<Rightarrow> addedCompanyCount s \<ge> m)"

text \<open>\<^verbatim>\<open>waitIfPaused\<close> polls every 500 ms; it does not return while the pause lasts.\<close>

partial_function (option) waitIfPaused :: "world \<Rightarrow> crawl \<Rightarrow> crawl option" where
  "waitIfPaused w s =
     (if isPaused w s \<and> \<not> shouldStop w s then waitIfPaused w (emit [PauseSleep] s)
      else Some s)"

subsection \<open>The remote relay and appendCsvRecord\<close>

fun decimal :: "nat \<Rightarrow> jsstring" where
  "decimal n = (if n < 10 then [48 + n] else decimal (n div 10) @ [48 + n mod 10])"

definition postRowToGas ::
  "world \<Rightarrow> gasConfig \<Rightarrow> jsstring list \<Rightarrow> crawl \<Rightarrow> (gasError + jsstring) \<times> crawl" where
  "postRowToGas w gas row s =
     (if \<not> urlParses w (uploadUrl gas) then (Inl GasUrlInvalid, s)
      else
        (let request = \<lparr>requestUrl = uploadUrl gas,
                         requestRow = row,
                         requestToken = (case token gas of None \<Rightarrow> [] | Some t \<Rightarrow> t),
                         authHeader = (if missing (token gas) then None else token gas),
                         timeoutMs = 10000\<rparr>;
             s1 = emit [PostGas request] s
         in case fetchAt w (length (trace s)) of
              FetchAborted \<Rightarrow> (Inl GasTimeout, s1)
            | FetchError \<Rightarrow> (Inl GasNetwork, s1)
            | FetchResponse status text \<Rightarrow>
                if \<not> (200 \<le> status \<and> status \<le> 299) then (Inl (GasRejected status text), s1)
                else (Inr (if text \<noteq> [] then text else ascii ''HTTP '' @ decimal status), s1)))"

definition appendCsvRecord :: "world \<Rightarrow> csvRecord \<Rightarrow> gasConfig option \<Rightarrow> crawl \<Rightarrow> crawl" where
  "appendCsvRecord w record gasConfig s =
     (let listSource = listSourceOf (timestampAt w (length (trace s)));
          line = csvLine record listSource;
          s1 = (emit [AppendCsv line] s)\<lparr>csvFile := csvFile s @ line\<rparr>
      in case gasConfig of
           None \<Rightarrow> s1
         | Some gas \<Rightarrow>
             (case postRowToGas w gas (gasRow record listSource) s1 of
                (Inr resp, s2) \<Rightarrow> emit [LogGasReply resp] s2
              | (Inl err, s2) \<Rightarrow> emit [LogGasError err] s2))"

text \<open>\<^verbatim>\<open>saveRecordIfNew\<close>; \<^verbatim>\<open>GAS_CONFIG\<close> is \<^verbatim>\<open>getGasConfig(CONFIG)\<close>.\<close>

definition saveRecordIfNew :: "world \<Rightarrow> mynaviConfig \<Rightarrow> csvRecord \<Rightarrow> crawl \<Rightarrow> bool \<times> crawl" where
  "saveRecordIfNew w config record s =
     (let normalizedCompanyName = normalizeCompanyName (companyName record) in
      if normalizedCompanyName \<in> existingCompanies s then (True, s)
      else (False,
            appendCsvRecord w record (getGasConfig config)
              (s\<lparr>existingCompanies := insert normalizedCompanyName (existingCompanies s)\<rparr>)))"


subsection \<open>One company\<close>

text \<open>The literals of the source: a fullwidth label, and three markers.\<close>

definition nameUnknown :: jsstring where
  "nameUnknown = [40, 20225, 26989, 21517, 19981, 26126, 41]"

definition noDetail :: jsstring where
  "noDetail = [35443, 32048, 28961, 12375]"

definition extractionFailed :: jsstring where
  "extractionFailed = [21462, 24471, 22833, 25943]"

definition notListed :: jsstring where
  "notListed = [28961, 35352, 36617]"

text \<open>\<^verbatim>\<open>x || fallback\<close> on strings.\<close>

definition orElse :: "jsstring \<Rightarrow> jsstring \<Rightarrow> jsstring" where
  "orElse x fallback = (if x = [] then fallback else x)"

text \<open>The defaults \<^verbatim>\<open>extractCompanyMetaFromOutline\<close> applies to what the page gave.\<close>

definition extractCompanyMetaFromOutline :: "companyMeta \<Rightarrow> companyMeta" where
  "extractCompanyMetaFromOutline raw =
     \<lparr>metaIndustry = orElse (metaIndustry raw) extractionFailed,
      metaHeadOffice = orElse (metaHeadOffice raw) extractionFailed,
      metaAnnualRecruitment = orElse (metaAnnualRecruitment raw) [],
      metaCompanySize = orElse (metaCompanySize raw) []\<rparr>"

text \<open>Scoring and choice of the course whose contacts are kept.\<close>

definition courseScore :: "courseData \<Rightarrow> nat" where
  "courseScore c =
     (let hasPhone = phones c \<noteq> []; hasEmail = emails c \<noteq> [] in
      if hasPhone \<and> hasEmail then 3
      else if hasPhone then 2
      else if hasEmail then 1
      else 0)"

definition scoredCourses :: "courseData list \<Rightarrow> (courseData \<times> nat) list" where
  "scoredCourses courseDataList = map (\<lambda>c. (c, courseScore c)) courseDataList"

text \<open>
  \<^verbatim>\<open>scored.sort((a, b) => b.score - a.score)\<close>: the sort of the language is stable, and
  so is insertion sort on the negated score.
\<close>

definition sortByScore :: "(courseData \<times> nat) list \<Rightarrow> (courseData \<times> nat) list" where
  "sortByScore scored = sort_key (\<lambda>x. - int (snd x)) scored"

definition bestCourse :: "courseData list \<Rightarrow> courseData option" where
  "bestCourse courseDataList =
     (case sortByScore (scoredCourses courseDataList) of
        [] \<Rightarrow> None
      | best # _ \<Rightarrow> Some (fst best))"

text \<open>\<^verbatim>\<open>xs[0] ?? fallback\<close>\<close>

definition firstOr :: "jsstring list \<Rightarrow> jsstring \<Rightarrow> jsstring" where
  "firstOr xs fallback = (case xs of [] \<Rightarrow> fallback | x # _ \<Rightarrow> x)"

text \<open>The three records of the source.\<close>

definition noCourseRecord :: "jsstring \<Rightarrow> companyMeta \<Rightarrow> jsstring \<Rightarrow> csvRecord" where
  "noCourseRecord finalCompanyName meta isPageUrl =
     \<lparr>companyName = orElse finalCompanyName nameUnknown,
      phone = noDetail,
      email = noDetail,
      industry = metaIndustry meta,
      headOffice = metaHeadOffice meta,
      tableUrl = isPageUrl,
      tableJson = JsonOfText noDetail,
      annualRecruitment = metaAnnualRecruitment meta,
      companySize = metaCompanySize meta\<rparr>"

definition noTableRecord :: "jsstring \<Rightarrow> companyMeta \<Rightarrow> jsstring \<Rightarrow> csvRecord" where
  "noTableRecord finalCompanyName meta isPageUrl =
     \<lparr>companyName = finalCompanyName,
      phone = extractionFailed,
      email = extractionFailed,
      industry = metaIndustry meta,
      headOffice = metaHeadOffice meta,
      tableUrl = isPageUrl,
      tableJson = JsonOfRows [],
      annualRecruitment = metaAnnualRecruitment meta,
      companySize = metaCompanySize meta\<rparr>"

definition courseRecord :: "jsstring \<Rightarrow> companyMeta \<Rightarrow> courseData \<Rightarrow> csvRecord" where
  "courseRecord finalCompanyName meta best =
     \<lparr>companyName = finalCompanyName,
      phone = firstOr (phones best) notListed,
      email = firstOr (emails best) notListed,
      industry = metaIndustry meta,
      headOffice = metaHeadOffice meta,
      tableUrl = sourceUrl best,
      tableJson = JsonOfRows (tableRows best),
      annualRecruitment = metaAnnualRecruitment meta,
      companySize = metaCompanySize meta\<rparr>"

text \<open>
  The loop over the course links. It gives \<open>None\<close> in the first component when
  \<^verbatim>\<open>extractInternshipTable\<close> throws, which ends the work on the company.
\<close>

fun courseLoop ::
  "world \<Rightarrow> jsstring \<Rightarrow> jsstring list \<Rightarrow> courseData list \<Rightarrow> crawl \<Rightarrow> (courseData list option \<times> crawl) option" where
  "courseLoop w finalCompanyName [] courseDataList s = Some (Some courseDataList, s)"
| "courseLoop w finalCompanyName (courseUrl # rest) courseDataList s =
     (if shouldStop w s then Some (Some courseDataList, s)
      else
        (case waitIfPaused w s of
           None \<Rightarrow> None
         | Some s1 \<Rightarrow>
             (let s2 = emit [Delay DELAY_MS, ExtractTable courseUrl] s1 in
              case tableAt w courseUrl of
                TableThrows \<Rightarrow> Some (None, s2)
              | TableMissing \<Rightarrow> courseLoop w finalCompanyName rest courseDataList s2
              | TableFound d \<Rightarrow>
                  (let courseDataList' = courseDataList @ [d\<lparr>courseCompanyName := finalCompanyName\<rparr>] in
                   if phones d \<noteq> [] \<and> emails d \<noteq> [] then Some (Some courseDataList', s2)
                   else courseLoop w finalCompanyName rest courseDataList' s2))))"

datatype loopControl = Continue | Break

text \<open>
  The statements after a save that was not skipped: count, then leave the company loop
  when the cap is reached.
\<close>

definition counted :: "nat option \<Rightarrow> crawl \<Rightarrow> loopControl \<times> crawl" where
  "counted maxCompanies s =
     (let s1 = s\<lparr>addedCompanyCount := addedCompanyCount s + 1\<rparr> in
      (if capReached maxCompanies s1 then Break else Continue, s1))"

text \<open>
  The code after the \<^verbatim>\<open>if\<close> on the course links, reached with the list of tables found:
  one record for the company, from the best course or without any.
\<close>

definition persistCourses ::
  "world \<Rightarrow> mynaviConfig \<Rightarrow> jsstring \<Rightarrow> companyMeta \<Rightarrow> jsstring \<Rightarrow> courseData list \<Rightarrow> crawl
     \<Rightarrow> loopControl \<times> crawl" where
  "persistCourses w config finalCompanyName meta isPageUrl courseDataList s =
     (if courseDataList = [] then
        (case saveRecordIfNew w config (noTableRecord finalCompanyName meta isPageUrl) s of
           (True, s1) \<Rightarrow> (Continue, s1)
         | (False, s1) \<Rightarrow> counted (MAX_COMPANIES config) s1)
      else
        (case bestCourse courseDataList of
           None \<Rightarrow> (Continue, s)
         | Some best \<Rightarrow>
             (case saveRecordIfNew w config (courseRecord finalCompanyName meta best) s of
                (True, s1) \<Rightarrow> (if capReached (MAX_COMPANIES config) s1 then Break else Continue, s1)
              | (False, s1) \<Rightarrow> counted (MAX_COMPANIES config) s1)))"

text \<open>
  The body of the \<^verbatim>\<open>try\<close> block for one link of the search page, with the \<^verbatim>\<open>catch\<close>: an
  exception ends the work on this company and the loop goes on.
\<close>

definition processCompany ::
  "world \<Rightarrow> mynaviConfig \<Rightarrow> jsstring \<times> jsstring \<Rightarrow> crawl \<Rightarrow> (loopControl \<times> crawl) option" where
  "processCompany w config link s =
     (let companyNameFromSearch = fst link; companyUrl = snd link in
      if companyNameFromSearch = [] then Some (Continue, s)
      else if checkCompanyExists companyNameFromSearch (existingCompanies s) then
        Some (Continue,
              s\<lparr>existingCompanies :=
                   insert (normalizeCompanyName companyNameFromSearch) (existingCompanies s)\<rparr>)
      else
        (let finalCompanyName = companyNameFromSearch;
             s1 = emit [Delay DELAY_MS, Goto companyUrl] s
         in case outline (siteOf w companyUrl) of
              OutlineThrows \<Rightarrow> Some (Continue, s1)
            | Outline raw currentUrl \<Rightarrow>
                (let meta = extractCompanyMetaFromOutline raw in
                 if \<not> includesStr currentUrl (ascii ''outline'') then Some (Continue, s1)
                 else
                   (let isPageUrl = replaceFirst currentUrl (ascii ''outline'') (ascii ''is'');
                        s2 = emit [Delay DELAY_MS, Goto isPageUrl] s1
                    in if \<not> isPageOpens (siteOf w companyUrl) then Some (Continue, s2)
                       else if courseLinks (siteOf w companyUrl) = [] then
                         (let s3 = emit [ExtractTable isPageUrl] s2 in
                          case tableAt w isPageUrl of
                            TableFound dataOnIs \<Rightarrow>
                              Some (persistCourses w config finalCompanyName meta isPageUrl
                                      [dataOnIs\<lparr>courseCompanyName := finalCompanyName\<rparr>] s3)
                          | _ \<Rightarrow>
                              (case saveRecordIfNew w config (noCourseRecord finalCompanyName meta isPageUrl) s3 of
                                 (True, s4) \<Rightarrow> Some (Continue, s4)
                               | (False, s4) \<Rightarrow> Some (counted (MAX_COMPANIES config) s4)))
                       else
                         (case courseLoop w finalCompanyName (courseLinks (siteOf w companyUrl)) [] s2 of
                            None \<Rightarrow> None
                          | Some (None, s3) \<Rightarrow> Some (Continue, s3)
                          | Some (Some courseDataList, s3) \<Rightarrow>
                              Some (persistCourses w config finalCompanyName meta isPageUrl courseDataList s3))))))"

subsection \<open>The companies of one page, and the pages\<close>

fun companyLoop ::
  "world \<Rightarrow> mynaviConfig \<Rightarrow> (jsstring \<times> jsstring) list \<Rightarrow> crawl \<Rightarrow> crawl option" where
  "companyLoop w config [] s = Some s"
| "companyLoop w config (link # rest) s =
     (if shouldStop w s then Some s
      else if capReached (MAX_COMPANIES config) s then Some s
      else
        (case waitIfPaused w s of
           None \<Rightarrow> None
         | Some s1 \<Rightarrow>
             (case processCompany w config link s1 of
                None \<Rightarrow> None
              | Some (Break, s2) \<Rightarrow> Some s2
              | Some (Continue, s2) \<Rightarrow> companyLoop w config rest s2)))"

text \<open>
  One turn of the \<^verbatim>\<open>while (true)\<close> loop: it ends the run, reporting
  \<^verbatim>\<open>lastProcessedPageIndex\<close>, or goes on with the next page index.
\<close>

datatype pageResult = Done nat crawl | Next nat crawl

definition nextDisabled :: "jsstring option \<Rightarrow> bool" where
  "nextDisabled cls = includesStr (case cls of None \<Rightarrow> [] | Some c \<Rightarrow> c) (ascii ''disabled'')"

definition advance :: "world \<Rightarrow> nat \<Rightarrow> nat \<Rightarrow> crawl \<Rightarrow> pageResult" where
  "advance w lastProcessedPageIndex pageIndex s =
     (case nextPage (searchPageAt w pageIndex) of
        NoButton \<Rightarrow> Done lastProcessedPageIndex s
      | Button cls \<Rightarrow>
          if nextDisabled cls then Done lastProcessedPageIndex s
          else Next (pageIndex + 1) (emit [Delay DELAY_MS, ClickNext] s))"

definition pageStep :: "world \<Rightarrow> mynaviConfig \<Rightarrow> nat \<Rightarrow> crawl \<Rightarrow> pageResult option" where
  "pageStep w config pageIndex s =
     (let lastProcessedPageIndex = pageIndex in
      if shouldStop w s then Some (Done lastProcessedPageIndex s)
      else if capReached (MAX_COMPANIES config) s then Some (Done lastProcessedPageIndex s)
      else
        (case waitIfPaused w s of
           None \<Rightarrow> None
         | Some s1 \<Rightarrow>
             if pageIndex \<ge> START_PAGE config then
               (case companyLoop w config (companyData (searchPageAt w pageIndex)) (emit [OpenDetailPage] s1) of
                  None \<Rightarrow> None
                | Some s2 \<Rightarrow>
                    (let s3 = emit [CloseDetailPage] s2 in
                     if shouldStop w s3 then Some (Done lastProcessedPageIndex s3)
                     else if capReached (MAX_COMPANIES config) s3 then Some (Done lastProcessedPageIndex s3)
                     else Some (advance w lastProcessedPageIndex pageIndex s3)))
             else Some (advance w lastProcessedPageIndex pageIndex s1)))"

text \<open>
  The loop itself, which need not end (the site may have a next page for ever), and
  the same loop cut after a given number of pages, for statements about what a run has
  done by then.
\<close>

partial_function (option) pageLoop ::
  "world \<Rightarrow> mynaviConfig \<Rightarrow> nat \<Rightarrow> crawl \<Rightarrow> (nat \<times> crawl) option" where
  "pageLoop w config pageIndex s =
     (case pageStep w config pageIndex s of
        None \<Rightarrow> None
      | Some (Done lastProcessedPageIndex s') \<Rightarrow> Some (lastProcessedPageIndex, s')
      | Some (Next pageIndex' s') \<Rightarrow> pageLoop w config pageIndex' s')"

datatype runEnd = Finished nat | Unfinished nat

fun pageLoopUpTo ::
  "nat \<Rightarrow> world \<Rightarrow> mynaviConfig \<Rightarrow> nat \<Rightarrow> crawl \<Rightarrow> (runEnd \<times> crawl) option" where
  "pageLoopUpTo 0 w config pageIndex s = Some (Unfinished pageIndex, s)"
| "pageLoopUpTo (Suc n) w config pageIndex s =
     (case pageStep w config pageIndex s of
        None \<Rightarrow> None
      | Some (Done lastProcessedPageIndex s') \<Rightarrow> Some (Finished lastProcessedPageIndex, s')
      | Some (Next pageIndex' s') \<Rightarrow> pageLoopUpTo n w config pageIndex' s')"

text \<open>\<^verbatim>\<open>processAllCompaniesFromSearch\<close> starts at page 1 with nothing added.\<close>

definition startOfRun :: "jsstring set \<Rightarrow> jsstring \<Rightarrow> crawl" where
  "startOfRun existing file =
     \<lparr>trace = [], existingCompanies = existing, csvFile = file, addedCompanyCount = 0\<rparr>"

definition processAllCompaniesFromSearch ::
  "world \<Rightarrow> mynaviConfig \<Rightarrow> jsstring set \<Rightarrow> jsstring \<Rightarrow> (nat \<times> crawl) option" where
  "processAllCompaniesFromSearch w config existing file =
     pageLoop w config 1 (startOfRun existing file)"


section \<open>Examples used to exercise the theorems\<close>

text \<open>Two raw names with the same normalized form.\<close>

definition exampleNameA :: jsstring where "exampleNameA = ascii ''Acme  pick up''"

definition exampleNameB :: jsstring where "exampleNameB = 9 # ascii ''Acme''"

text \<open>A configuration file without a search URL, and one with a spreadsheet to sync from.\<close>

definition exampleParsedNoUrl :: parsedConfig where
  "exampleParsedNoUrl =
     \<lparr>pSEARCH_URL = JUndefined, pSTART_PAGE = JNum 2, pMAX_COMPANIES = JUndefined,
      pSPREADSHEET_URL = None, pCSV_PATH = Some (ascii ''list.csv''),
      pGAS_UPLOAD_URL = None, pGAS_UPLOAD_TOKEN = None\<rparr>"

definition exampleSheetUrl :: jsstring where
  "exampleSheetUrl = ascii ''https://docs.google.com/spreadsheets/d/abc123/edit''"

definition exampleCsvUrl :: jsstring where
  "exampleCsvUrl = ascii ''https://docs.google.com/spreadsheets/d/abc123/export?format=csv''"

text \<open>
  A service that rejects the state \<open>old\<close> with status 401 and accepts every other state;
  the operator's capture ends with the state \<open>new\<close>.
\<close>

definition exampleSessionWorld :: sessionWorld where
  "exampleSessionWorld =
     \<lparr>exportAnswer = (\<lambda>n state url.
          if state = ascii ''old'' then HttpResponse 401 (ascii ''denied'')
          else HttpResponse 200 (ascii ''a,b'')),
      captured = (\<lambda>n url. Some (ascii ''new''))\<rparr>"

definition exampleSessionRun :: "storageState option \<Rightarrow> sessionRun" where
  "exampleSessionRun saved = \<lparr>sessionFile = saved, sessionTrace = []\<rparr>"

text \<open>
  A small site. The first search page lists the companies A, B and C and has a next
  button; the second lists D and its next button is disabled. Company A has three
  course pages: the first gives a phone only, the second and the third a phone and an
  email. The other companies have no course page and no table. The relay never answers.
\<close>

definition phoneOnly :: courseData where
  "phoneOnly =
     \<lparr>courseCompanyName = [], tableRows = [], phones = [ascii ''03-1111-2222''], emails = [],
      sourceUrl = ascii ''a/c1''\<rparr>"

definition phoneAndEmail :: "jsstring \<Rightarrow> courseData" where
  "phoneAndEmail url =
     \<lparr>courseCompanyName = [], tableRows = [], phones = [ascii ''03-3333-4444''],
      emails = [ascii ''x@y.jp''], sourceUrl = url\<rparr>"

definition exampleWorld :: world where
  "exampleWorld =
     \<lparr>shouldStopAt = (\<lambda>t. False),
      isPausedAt = (\<lambda>t. False),
      searchPageAt = (\<lambda>i.
         if i = 1 then
           \<lparr>companyData = [([65], ascii ''a/outline''), ([66], ascii ''b/outline''),
                            ([67], ascii ''c/outline'')],
            nextPage = Button (Some (ascii ''next''))\<rparr>
         else
           \<lparr>companyData = [([68], ascii ''d/outline'')],
            nextPage = Button (Some (ascii ''next disabled''))\<rparr>),
      siteOf = (\<lambda>url.
         \<lparr>outline = Outline \<lparr>metaIndustry = [], metaHeadOffice = [],
                                metaAnnualRecruitment = [], metaCompanySize = []\<rparr> url,
          isPageOpens = True,
          courseLinks = (if url = ascii ''a/outline''
                         then [ascii ''a/c1'', ascii ''a/c2'', ascii ''a/c3''] else [])\<rparr>),
      tableAt = (\<lambda>url.
         if url = ascii ''a/c1'' then TableFound phoneOnly
         else if url = ascii ''a/c2'' \<or> url = ascii ''a/c3'' then TableFound (phoneAndEmail url)
         else TableMissing),
      timestampAt = (\<lambda>t. ascii ''2026-01-02 03:04:05''),
      urlParses = (\<lambda>url. True),
      fetchAt = (\<lambda>t. FetchAborted)\<rparr>"

text \<open>Candidates with the scores 0, 2, 3 and 1, in this order.\<close>

definition exampleCandidates :: "courseData list" where
  "exampleCandidates =
     [phoneOnly\<lparr>phones := []\<rparr>, phoneOnly, phoneAndEmail (ascii ''a/c2''),
      (phoneAndEmail (ascii ''a/c3''))\<lparr>phones := []\<rparr>]"

definition exampleGas :: gasConfig where
  "exampleGas = \<lparr>uploadUrl = ascii ''https://relay.example/exec'', token = None\<rparr>"

definition exampleConfig :: "nat option \<Rightarrow> mynaviConfig" where
  "exampleConfig cap = defaultConfig\<lparr>MAX_COMPANIES := cap\<rparr>"

text \<open>The line \<^verbatim>\<open>appendCsvRecord\<close> writes for a record in a given state of the run.\<close>

definition writtenLine :: "world \<Rightarrow> csvRecord \<Rightarrow> crawl \<Rightarrow> jsstring" where
  "writtenLine w record s = csvLine record (listSourceOf (timestampAt w (length (trace s))))"

text \<open>The URLs handed to \<^verbatim>\<open>extractInternshipTable\<close> in a trace, and a table with both contacts.\<close>

fun extracted :: "event list \<Rightarrow> jsstring list" where
  "extracted [] = []"
| "extracted (ExtractTable url # tr) = url # extracted tr"
| "extracted (e # tr) = extracted tr"

fun bothFound :: "tableResult \<Rightarrow> bool" where
  "bothFound (TableFound d) = (phones d \<noteq> [] \<and> emails d \<noteq> [])"
| "bothFound TableThrows = False"
| "bothFound TableMissing = False"

text \<open>The tables found at a list of URLs, in that order, under the name from the search page.\<close>

definition tablesFound :: "world \<Rightarrow> jsstring \<Rightarrow> jsstring list \<Rightarrow> courseData list" where
  "tablesFound w finalCompanyName urls =
     concat (map (\<lambda>url. case tableAt w url of
                            TableFound d \<Rightarrow> [d\<lparr>courseCompanyName := finalCompanyName\<rparr>]
                          | _ \<Rightarrow> []) urls)"

text \<open>
  Reading a trace: the lines appended to the CSV file, the events that load a page, and
  what a trace holds after its \<open>n\<close>-th append.
\<close>

fun appended :: "event list \<Rightarrow> jsstring list" where
  "appended [] = []"
| "appended (AppendCsv line # tr) = line # appended tr"
| "appended (e # tr) = appended tr"

fun isNavigation :: "event \<Rightarrow> bool" where
  "isNavigation (Goto url) = True"
| "isNavigation (ExtractTable url) = True"
| "isNavigation ClickNext = True"
| "isNavigation e = False"

fun afterAppends :: "nat \<Rightarrow> event list \<Rightarrow> event list" where
  "afterAppends 0 tr = tr"
| "afterAppends (Suc n) [] = []"
| "afterAppends (Suc n) (AppendCsv line # tr) = afterAppends n tr"
| "afterAppends (Suc n) (e # tr) = afterAppends (Suc n) tr"

text \<open>
  A trace in which every run of pause polls is followed at once by the delay and the
  extraction of a course page.
\<close>

definition courseFetchNext :: "event list \<Rightarrow> bool" where
  "courseFetchNext tr = (case tr of Delay n # ExtractTable url # rest \<Rightarrow> True | _ \<Rightarrow> False)"

fun pausesBeforeCourse :: "event list \<Rightarrow> bool" where
  "pausesBeforeCourse [] = True"
| "pausesBeforeCourse (e # tr) =
     (if e \<noteq> PauseSleep then pausesBeforeCourse tr
      else if courseFetchNext tr then pausesBeforeCourse (drop 2 tr)
      else (case tr of [] \<Rightarrow> False | e' # _ \<Rightarrow> e' = PauseSleep \<and> pausesBeforeCourse tr))"

text \<open>What the end of the work on one company adds: nothing, or one append and its relay.\<close>

definition oneSave :: "event list \<Rightarrow> bool" where
  "oneSave d \<longleftrightarrow> (\<exists>line rest. d = AppendCsv line # rest \<and>
     (\<forall>e \<in> set rest. \<not> isNavigation e \<and> e \<noteq> PauseSleep) \<and> appended rest = [])"

text \<open>
  A later state of the same run: the trace has grown, and the counter has grown by the
  number of lines appended since.
\<close>

definition grows :: "crawl \<Rightarrow> crawl \<Rightarrow> bool" where
  "grows s s' \<longleftrightarrow>
     (\<exists>d. trace s' = trace s @ d \<and>
          addedCompanyCount s' = addedCompanyCount s + length (appended d))"

text \<open>
  A state of a run with the cap \<open>M\<close>: the counter is the number of lines appended, it is
  at most \<open>M\<close>, and once it is \<open>M\<close> no page has been loaded since the last append.
\<close>

definition withinCap :: "nat \<Rightarrow> crawl \<Rightarrow> bool" where
  "withinCap M s \<longleftrightarrow>
     addedCompanyCount s = length (appended (trace s)) \<and> addedCompanyCount s \<le> M \<and>
     (addedCompanyCount s = M \<longrightarrow> (\<forall>e \<in> set (afterAppends M (trace s)). \<not> isNavigation e))"

text \<open>
  The CSV file is the file the run started with, followed by the lines appended since.
\<close>

definition ledgerIs :: "jsstring \<Rightarrow> crawl \<Rightarrow> bool" where
  "ledgerIs file s \<longleftrightarrow> csvFile s = file @ concat (appended (trace s))"

text \<open>
  What is written between two states of a run is written under a given name: every line
  appended is the line of a record with that name, and at most the identity of that name
  has been added to the set.
\<close>

definition savesUnder :: "jsstring \<Rightarrow> crawl \<Rightarrow> crawl \<Rightarrow> bool" where
  "savesUnder name s s' \<longleftrightarrow>
     (\<exists>d. trace s' = trace s @ d \<and>
          (\<forall>line \<in> set (appended d). \<exists>r ls. companyName r = name \<and> line = csvLine r ls) \<and>
          existingCompanies s' \<subseteq> insert (normalizeCompanyName name) (existingCompanies s))"

text \<open>The state a turn of the page loop ends with.\<close>

fun stateOf :: "pageResult \<Rightarrow> crawl" where
  "stateOf (Done lastProcessedPageIndex s) = s"
| "stateOf (Next pageIndex s) = s"

text \<open>The operator pauses while company A is being worked on, after its internship page opened.\<close>

definition pausedWorld :: world where
  "pausedWorld = exampleWorld\<lparr>isPausedAt := (\<lambda>t. t = 4)\<rparr>"

text \<open>A machine on which everything works and the output file does not exist yet.\<close>

definition exampleHost :: host where
  "exampleHost =
     \<lparr>files = (\<lambda>path. None),
      fsFails = (\<lambda>path. False),
      resolveCsvPath = (\<lambda>csvPath. ascii ''/app/'' @ csvPath),
      OUTPUT_CSV = ascii ''/app/mynavi_internships.csv'',
      browserLaunches = True,
      pageOpens = (\<lambda>url. True),
      loginConfirmed = True\<rparr>"

text \<open>Two search pages without companies; the next button of the second is disabled.\<close>

definition pagesWorld :: world where
  "pagesWorld =
     exampleWorld\<lparr>searchPageAt := (\<lambda>i.
        \<lparr>companyData = [],
         nextPage = Button (Some (if i = 1 then ascii ''next'' else ascii ''next disabled''))\<rparr>)\<rparr>"

text \<open>Search pages without companies whose next button is always there and enabled.\<close>

definition endlessWorld :: world where
  "endlessWorld =
     exampleWorld\<lparr>searchPageAt := (\<lambda>i.
        \<lparr>companyData = [], nextPage = Button (Some (ascii ''next''))\<rparr>)\<rparr>"

text \<open>The two search pages without companies, with the operator pausing before the run starts.\<close>

definition pausedPagesWorld :: world where
  "pausedPagesWorld = pagesWorld\<lparr>isPausedAt := (\<lambda>t. t = 0)\<rparr>"

text \<open>A record with plain values, for company A.\<close>

definition plainRecord :: csvRecord where
  "plainRecord =
     \<lparr>companyName = [65], phone = ascii ''03-1234-5678'', email = ascii ''a@b.jp'',
      industry = [], headOffice = [], tableUrl = ascii ''a/is'', tableJson = JsonOfRows [],
      annualRecruitment = [], companySize = []\<rparr>"

text \<open>
  The end of a run that starts with the output file as given (\<open>None\<close>: no file): the
  header is ensured, the identity set is seeded from the file, and the record of company A
  is saved. Then what the next run seeds its identity set with, after ensuring the header
  again.
\<close>

definition savedOn :: "jsstring option \<Rightarrow> crawl" where
  "savedOn file =
     snd (saveRecordIfNew exampleWorld (exampleConfig None) plainRecord
            (startOfRun (loadExistingCompanyNames (Some (withCsvHeader file))) (withCsvHeader file)))"

definition seededNext :: "crawl \<Rightarrow> jsstring set" where
  "seededNext s = loadExistingCompanyNames (Some (withCsvHeader (Some (csvFile s))))"

text \<open>
  A CSV text as a spreadsheet export gives it: the header, CR LF, one row for company B
  with unquoted fields, and no line break at the end.
\<close>

definition sheetText :: jsstring where
  "sheetText =
     joinWith comma headerColumns @ [cr, lf] @
     joinWith comma [[], [], [], [], [], [], [], [66], [], [], [], [], [], [], [], [], [], [], [], []]"

text \<open>A record whose name holds a comma, double quotes and a line feed.\<close>

definition exampleRecord :: csvRecord where
  "exampleRecord =
     \<lparr>companyName = [65, 44, 34, 98, 34, 10, 67],
      phone = ascii ''03-1234-5678'',
      email = ascii ''a@b.jp'',
      industry = [],
      headOffice = [],
      tableUrl = ascii ''https://job.mynavi.jp/27/pc/corp1/is.html'',
      tableJson = JsonOfRows [],
      annualRecruitment = ascii ''12'',
      companySize = []\<rparr>"

section \<open>Properties of the ledger file\<close>

lemma codes_distinct [simp]:
  "dquote \<noteq> comma" "dquote \<noteq> lf" "dquote \<noteq> cr" "comma \<noteq> lf" "comma \<noteq> cr" "lf \<noteq> cr"
  "comma \<noteq> dquote" "lf \<noteq> dquote" "cr \<noteq> dquote" "lf \<noteq> comma" "cr \<noteq> comma" "cr \<noteq> lf"
  by (simp_all add: dquote_def comma_def lf_def cr_def)

lemma nextIs_simps [simp]: "nextIs x [] = False" "nextIs x (d # ds) = (d = x)"
  by (simp_all add: nextIs_def)

lemma escapeCsvValue_simps [simp]:
  "escapeCsvValue [] = []"
  "escapeCsvValue (c # v) = (if c = dquote then [dquote, dquote] else [c]) @ escapeCsvValue v"
  by (simp_all add: escapeCsvValue_def)

text \<open>Inside a quoted field the parser reads the escaped value back, up to the closing quote.\<close>

lemma parse_inside_quotes:
  "\<not> nextIs dquote rest \<Longrightarrow>
   parseCsvFrom rows row fld True (escapeCsvValue v @ dquote # rest) =
   parseCsvFrom rows row (fld @ v) False rest"
proof (induction v arbitrary: fld)
  case Nil
  then show ?case by simp
next
  case (Cons c v)
  show ?case
  proof (cases "c = dquote")
    case True
    then show ?thesis using Cons.IH [OF Cons.prems, of "fld @ [dquote]"] by simp
  next
    case False
    then show ?thesis using Cons.IH [OF Cons.prems, of "fld @ [c]"] by simp
  qed
qed

lemma parse_quoted:
  "\<not> nextIs dquote rest \<Longrightarrow>
   parseCsvFrom rows row [] False (quoted v @ rest) = parseCsvFrom rows row v False rest"
  using parse_inside_quotes [of rest rows row "[]" v] by (simp add: quoted_def)

text \<open>A whole written line, whatever has been parsed before it and whatever follows.\<close>

lemma parse_joined:
  "parseCsvFrom rows row [] False (joinFields (f # fs) @ lf # rest) =
   parseCsvFrom (pushRow rows (row @ f # fs)) [] [] False rest"
proof (induction fs arbitrary: f row)
  case Nil
  show ?case by (simp add: parse_quoted)
next
  case (Cons g fs)
  have "parseCsvFrom rows row [] False (joinFields (f # g # fs) @ lf # rest) =
        parseCsvFrom rows row f False (comma # joinFields (g # fs) @ lf # rest)"
    using parse_quoted [of "comma # joinFields (g # fs) @ lf # rest" rows row f] by simp
  also have "\<dots> = parseCsvFrom rows (row @ [f]) [] False (joinFields (g # fs) @ lf # rest)"
    by simp
  also have "\<dots> = parseCsvFrom (pushRow rows ((row @ [f]) @ g # fs)) [] [] False rest"
    by (rule Cons.IH)
  finally show ?case by simp
qed

lemma csvLine_joined: "csvLine r ls = joinFields (gasRow r ls) @ [lf]"
  by (simp add: csvLine_def gasRow_def)

text \<open>
  The round trip of one line: for every record whose row has at least one non-blank
  field, parsing the line that \<^verbatim>\<open>appendCsvRecord\<close> writes for it (every field in double
  quotes, embedded quotes doubled) with \<^verbatim>\<open>parseCsvContent\<close> gives exactly one row, and
  its fields are the twenty original values, whatever commas, double quotes and line
  breaks they hold.
\<close>

lemma csv_line_roundtrip:
  "list_ex (\<lambda>f. trim f \<noteq> []) (gasRow r ls) \<Longrightarrow> parseCsvContent (csvLine r ls) = [gasRow r ls]"
proof -
  assume h: "list_ex (\<lambda>f. trim f \<noteq> []) (gasRow r ls)"
  obtain f fs where g: "gasRow r ls = f # fs" by (simp add: gasRow_def)
  have c: "rowHasContent (gasRow r ls)" using h g by (simp add: rowHasContent_def)
  have "parseCsvContent (csvLine r ls) = parseCsvFrom (pushRow [] ([] @ f # fs)) [] [] False []"
    unfolding parseCsvContent_def csvLine_joined g by (rule parse_joined)
  then show ?thesis using c g by (simp add: pushRow_def)
qed

section \<open>Properties of the dedup ledger\<close>

lemmas evals = trim_def isWhiteSpace_def matchPickUp_def pickUp_def eqIgnoreCase_def isLineBreakOrTab_def
  space_def lf_def cr_def tab_def normalizeCompanyName_def ascii_def


text \<open>
  Claim C1. For two non-empty raw names with the same normalized form, inserting one with
  \<^verbatim>\<open>checkAndAddCompany\<close> and then probing the other (with \<^verbatim>\<open>checkCompanyExists\<close> or with
  \<^verbatim>\<open>checkAndAddCompany\<close>) reports a duplicate, in either order; and for a non-empty name
  \<^verbatim>\<open>checkAndAddCompany\<close> returns true and leaves the set as it is when the normalized name
  is present, and otherwise adds the normalized name and returns false.
\<close>

theorem checkAndAdd_same_identity:
  assumes "a \<noteq> []" and "b \<noteq> []" and "normalizeCompanyName a = normalizeCompanyName b"
  shows "checkCompanyExists b (snd (checkAndAddCompany a S)) \<and>
         fst (checkAndAddCompany b (snd (checkAndAddCompany a S))) \<and>
         checkCompanyExists a (snd (checkAndAddCompany b S)) \<and>
         fst (checkAndAddCompany a (snd (checkAndAddCompany b S))) \<and>
         checkAndAddCompany a S =
           (if normalizeCompanyName a \<in> S then (True, S)
            else (False, insert (normalizeCompanyName a) S))"
  using assms by (simp add: checkCompanyExists_def checkAndAddCompany_def Let_def)

theorem checkAndAdd_same_identity_witness:
  "checkCompanyExists exampleNameB (snd (checkAndAddCompany exampleNameA {})) \<and>
   fst (checkAndAddCompany exampleNameB (snd (checkAndAddCompany exampleNameA {}))) \<and>
   checkCompanyExists exampleNameA (snd (checkAndAddCompany exampleNameB {})) \<and>
   fst (checkAndAddCompany exampleNameA (snd (checkAndAddCompany exampleNameB {}))) \<and>
   checkAndAddCompany exampleNameA {} = (False, {ascii ''Acme''})"
proof -
  have a: "exampleNameA \<noteq> []" by (simp add: exampleNameA_def ascii_def)
  have b: "exampleNameB \<noteq> []" by (simp add: exampleNameB_def)
  have na: "normalizeCompanyName exampleNameA = ascii ''Acme''"
    by (simp add: exampleNameA_def evals)
  have nb: "normalizeCompanyName exampleNameB = ascii ''Acme''"
    by (simp add: exampleNameB_def evals)
  have h: "normalizeCompanyName exampleNameA = normalizeCompanyName exampleNameB"
    by (simp only: na nb)
  note c = checkAndAdd_same_identity [OF a b h, of "{}"]
  have "checkAndAddCompany exampleNameA {} = (False, {ascii ''Acme''})"
    using c by (simp add: na)
  with c show ?thesis by blast
qed

section \<open>Properties of session replay\<close>

lemma captureCount_append [simp]: "captureCount (xs @ ys) = captureCount xs + captureCount ys"
  by (simp add: captureCount_def)

lemma captureCount_simps [simp]:
  "captureCount [] = 0"
  "captureCount (Capture u # tr) = Suc (captureCount tr)"
  "captureCount (Download st c # tr) = captureCount tr"
  "captureCount (SaveSession st # tr) = captureCount tr"
  by (simp_all add: captureCount_def)

lemma captureAndDownload_eq:
  "captureAndDownload w url csvUrl run =
     (case captured w (length (sessionTrace run)) url of
        None \<Rightarrow> (Inl CaptureFailed, run\<lparr>sessionTrace := sessionTrace run @ [Capture url]\<rparr>)
      | Some st \<Rightarrow>
          (responseText (exportAnswer w (length (sessionTrace run) + 2) st csvUrl),
           run\<lparr>sessionFile := Some st,
               sessionTrace := sessionTrace run @ [Capture url, SaveSession st, Download st csvUrl]\<rparr>))"
  by (simp add: captureAndDownload_def captureSessionInteractive_def downloadCsvWithSession_def
      saveSession_def Let_def split: option.splits)

text \<open>
  Claim C5. With a well-formed spreadsheet URL: when the saved session state is accepted
  by the export request, that one request is all that happens and no capture is made; when
  there is no saved state or the request with it fails, exactly one interactive capture is
  made, the captured state is written to the session file before the one retried request,
  and the result of the run is the result of that request, error included (a failed
  capture ends the run with its error as well).
\<close>

theorem session_replay_or_one_capture:
  assumes "buildCsvExportUrl url = Inr csvUrl"
  shows
    "(\<forall>st text. sessionFile run = Some st \<and>
        responseText (exportAnswer w (length (sessionTrace run)) st csvUrl) = Inr text \<longrightarrow>
        ensureSessionAndDownload w url run =
          (Inr text, run\<lparr>sessionTrace := sessionTrace run @ [Download st csvUrl]\<rparr>) \<and>
        captureCount (sessionTrace (snd (ensureSessionAndDownload w url run))) =
          captureCount (sessionTrace run)) \<and>
     ((sessionFile run = None \<or>
       (\<exists>st err. sessionFile run = Some st \<and>
          responseText (exportAnswer w (length (sessionTrace run)) st csvUrl) = Inl err)) \<longrightarrow>
        captureCount (sessionTrace (snd (ensureSessionAndDownload w url run))) =
          captureCount (sessionTrace run) + 1 \<and>
        (\<forall>k fresh. k = length (sessionTrace run) + (if sessionFile run = None then 0 else 1) \<and>
            captured w k url = Some fresh \<longrightarrow>
            sessionFile (snd (ensureSessionAndDownload w url run)) = Some fresh \<and>
            drop k (sessionTrace (snd (ensureSessionAndDownload w url run))) =
              [Capture url, SaveSession fresh, Download fresh csvUrl] \<and>
            fst (ensureSessionAndDownload w url run) =
              responseText (exportAnswer w (k + 2) fresh csvUrl)) \<and>
        (\<forall>k. k = length (sessionTrace run) + (if sessionFile run = None then 0 else 1) \<and>
            captured w k url = None \<longrightarrow>
            fst (ensureSessionAndDownload w url run) = Inl CaptureFailed))"
  using assms
  by (auto simp: ensureSessionAndDownload_def loadSession_def downloadCsvWithSession_def
      captureAndDownload_eq split: option.splits sum.splits)


lemmas string_evals = ascii_def sheetMarker_def slash_def

lemma exampleCsvUrl_built: "buildCsvExportUrl exampleSheetUrl = Inr exampleCsvUrl"
  by (simp add: buildCsvExportUrl_def exampleSheetUrl_def exampleCsvUrl_def string_evals)

theorem session_replay_or_one_capture_witness:
  "captureCount (sessionTrace (snd (ensureSessionAndDownload exampleSessionWorld exampleSheetUrl
      (exampleSessionRun (Some (ascii ''old'')))))) = 1 \<and>
   sessionFile (snd (ensureSessionAndDownload exampleSessionWorld exampleSheetUrl
      (exampleSessionRun (Some (ascii ''old''))))) = Some (ascii ''new'') \<and>
   drop 1 (sessionTrace (snd (ensureSessionAndDownload exampleSessionWorld exampleSheetUrl
      (exampleSessionRun (Some (ascii ''old'')))))) =
     [Capture exampleSheetUrl, SaveSession (ascii ''new''), Download (ascii ''new'') exampleCsvUrl] \<and>
   fst (ensureSessionAndDownload exampleSessionWorld exampleSheetUrl
      (exampleSessionRun (Some (ascii ''old'')))) = Inr (ascii ''a,b'')"
proof -
  let ?run = "exampleSessionRun (Some (ascii ''old''))"
  have rejected: "sessionFile ?run = None \<or>
      (\<exists>st err. sessionFile ?run = Some st \<and>
         responseText (exportAnswer exampleSessionWorld (length (sessionTrace ?run)) st exampleCsvUrl) = Inl err)"
    by (simp add: exampleSessionRun_def exampleSessionWorld_def responseText_def)
  have k: "(1::nat) = length (sessionTrace ?run) + (if sessionFile ?run = None then 0 else 1) \<and>
      captured exampleSessionWorld 1 exampleSheetUrl = Some (ascii ''new'')"
    by (simp add: exampleSessionRun_def exampleSessionWorld_def)
  have neq: "ascii ''new'' \<noteq> ascii ''old''" by (simp add: ascii_def)
  have ans: "responseText (exportAnswer exampleSessionWorld (1 + 2) (ascii ''new'') exampleCsvUrl) =
      Inr (ascii ''a,b'')"
    using neq by (simp add: exampleSessionWorld_def responseText_def)
  note t = session_replay_or_one_capture [OF exampleCsvUrl_built, of ?run exampleSessionWorld,
      THEN conjunct2, THEN mp, OF rejected]
  have c1: "captureCount (sessionTrace (snd (ensureSessionAndDownload exampleSessionWorld exampleSheetUrl ?run))) = 1"
    using t [THEN conjunct1] by (simp add: exampleSessionRun_def)
  note u = t [THEN conjunct2, THEN conjunct1, THEN spec, THEN spec, THEN mp, OF k]
  show ?thesis using c1 u ans by simp
qed

section \<open>Properties of the configuration\<close>

lemma loadConfig_no_url:
  "(\<forall>u. pSEARCH_URL parsed = JStr u \<longrightarrow> u = []) \<Longrightarrow> loadConfig (Some parsed) env = defaultConfig"
  by (cases "pSEARCH_URL parsed") (simp_all add: loadConfig_def loadConfigTry_def)

lemma getSheetConfig_missing:
  "(\<exists>err. getSheetConfig c = Inl err) \<longleftrightarrow> missing (SPREADSHEET_URL c) \<or> missing (CSV_PATH c)"
  by (auto simp: getSheetConfig_def missing_def split: option.splits)

lemma csvHeader_row:
  "parseCsvContent csvHeader = [headerColumns]"
  by (simp add: parseCsvContent_def csvHeader_def headerColumns_def comma_def lf_def dquote_def cr_def
      pushRow_def rowHasContent_def trim_def isWhiteSpace_def)

lemma csvHeader_seeds_nothing: "loadExistingCompanyNames (Some csvHeader) = {}"
  by (simp add: loadExistingCompanyNames_def csvHeader_row)

lemma defaultConfig_fields [simp]:
  "missing (SPREADSHEET_URL defaultConfig)" "missing (CSV_PATH defaultConfig)"
  "missing (GAS_UPLOAD_URL defaultConfig)" "getGasConfig defaultConfig = None"
  by (simp_all add: defaultConfig_def missing_def getGasConfig_def)

lemma exampleHost_start:
  "startup w None env exampleHost run =
     Some (Inr \<lparr>startConfig = defaultConfig, startGas = None,
                startHost = exampleHost\<lparr>files := (files exampleHost)(OUTPUT_CSV exampleHost := Some csvHeader)\<rparr>,
                startSession = run, startExisting = {}\<rparr>)"
proof -
  have c: "loadConfig None env = defaultConfig" by (simp add: loadConfig_def loadConfigTry_def)
  have f: "files exampleHost p = None" "\<not> fsFails exampleHost p" "browserLaunches exampleHost"
    "pageOpens exampleHost u" "loginConfirmed exampleHost" for p u
    by (simp_all add: exampleHost_def)
  show ?thesis
    by (simp add: startup_def c downloadCsvFromSpreadsheet_def ensureCsvHeader_def f
        withCsvHeader_def csvHeader_seeds_nothing Let_def)
qed

lemma downloadCsv_errors:
  assumes "downloadCsvFromSpreadsheet w c h run = (Inl err, run1)"
  shows "(\<exists>p. err = FileFailed p) \<or>
         (\<exists>e. err = SyncFailed e \<and> (\<forall>ce. e \<noteq> ConfigError ce)) \<and>
         \<not> missing (SPREADSHEET_URL c) \<and> \<not> missing (CSV_PATH c)"
proof (cases "missing (SPREADSHEET_URL c) \<or> missing (CSV_PATH c)")
  case True
  with assms show ?thesis by (simp add: downloadCsvFromSpreadsheet_def)
next
  case False
  then obtain sheet where g: "getSheetConfig c = Inr sheet"
    using getSheetConfig_missing [of c] by (cases "getSheetConfig c") auto
  have no: "fst (ensureSessionAndDownload w u r) \<noteq> Inl (ConfigError ce)" for u r ce
    by (auto simp: ensureSessionAndDownload_def buildCsvExportUrl_def captureAndDownload_def
        captureSessionInteractive_def downloadCsvWithSession_def responseText_def Let_def
        split: option.splits sum.splits prod.splits httpOutcome.splits if_splits)
  show ?thesis
  proof (cases "ensureSessionAndDownload w (sheetUrl sheet) run")
    case (Pair res run')
    show ?thesis
    proof (cases res)
      case (Inl e)
      with assms False g Pair have "err = SyncFailed e"
        by (simp add: downloadCsvFromSpreadsheet_def)
      moreover from no [of "sheetUrl sheet" run] Pair Inl have "\<forall>ce. e \<noteq> ConfigError ce" by auto
      ultimately show ?thesis using False by simp
    next
      case (Inr csvText)
      with assms False g Pair show ?thesis
        by (auto simp: downloadCsvFromSpreadsheet_def Let_def split: if_splits)
    qed
  qed
qed

text \<open>
  Claim C8 says that a configuration without the search URL makes startup fail with a
  configuration error. It does not: \<^verbatim>\<open>loadConfig\<close> catches its own error and returns the
  default configuration, and on a machine where everything works the start reaches the
  crawl, with the default search URL.
\<close>

theorem missing_search_url_is_not_fatal:
  "pSEARCH_URL exampleParsedNoUrl = JUndefined \<and>
   loadConfigTry (Some exampleParsedNoUrl) None = Inl SearchUrlUndefined \<and>
   loadConfig (Some exampleParsedNoUrl) None = defaultConfig \<and>
   startup exampleSessionWorld (Some exampleParsedNoUrl) None exampleHost (exampleSessionRun None) =
     Some (Inr \<lparr>startConfig = defaultConfig, startGas = None,
                startHost = exampleHost\<lparr>files := (files exampleHost)(OUTPUT_CSV exampleHost := Some csvHeader)\<rparr>,
                startSession = exampleSessionRun None, startExisting = {}\<rparr>) \<and>
   exitStatus (startup exampleSessionWorld (Some exampleParsedNoUrl) None exampleHost (exampleSessionRun None)) =
     None"
proof -
  have t: "loadConfigTry (Some exampleParsedNoUrl) None = Inl SearchUrlUndefined"
    by (simp add: exampleParsedNoUrl_def loadConfigTry_def)
  then have c: "loadConfig (Some exampleParsedNoUrl) None = loadConfig None None"
    by (simp add: loadConfig_def loadConfigTry_def)
  have s: "startup exampleSessionWorld (Some exampleParsedNoUrl) None exampleHost (exampleSessionRun None) =
        startup exampleSessionWorld None None exampleHost (exampleSessionRun None)"
    by (simp add: startup_def c)
  show ?thesis
    by (simp add: s exampleHost_start exitStatus_def t c)
       (simp add: exampleParsedNoUrl_def loadConfig_def loadConfigTry_def)
qed

lemma startup_errors:
  assumes "startup w file env h run = Some (Inl err)"
  shows "(\<exists>p. err = FileFailed p) \<or> err = LaunchFailed \<or> (\<exists>u. err = NavigationFailed u) \<or>
         (\<exists>e. err = SyncFailed e \<and> (\<forall>ce. e \<noteq> ConfigError ce)) \<and>
         \<not> missing (SPREADSHEET_URL (loadConfig file env)) \<and>
         \<not> missing (CSV_PATH (loadConfig file env))"
proof (cases "downloadCsvFromSpreadsheet w (loadConfig file env) h run")
  case (Pair res run1)
  show ?thesis
  proof (cases res)
    case (Inl e)
    with assms Pair have "err = e" by (simp add: startup_def Let_def)
    with downloadCsv_errors [of w "loadConfig file env" h run e run1] Pair Inl show ?thesis by blast
  next
    case (Inr h1)
    with assms Pair show ?thesis
      by (auto simp: startup_def ensureCsvHeader_def Let_def split: if_splits)
  qed
qed

lemma startup_succeeds:
  assumes "missing (SPREADSHEET_URL (loadConfig file env)) \<or> missing (CSV_PATH (loadConfig file env))"
    and "\<not> fsFails h (OUTPUT_CSV h)" and "browserLaunches h" and "pageOpens h TOP_URL"
    and "loginConfirmed h" and "pageOpens h (SEARCH_URL (loadConfig file env))"
  shows "\<exists>st. startup w file env h run = Some (Inr st) \<and> startConfig st = loadConfig file env \<and>
              startGas st = getGasConfig (loadConfig file env) \<and> startSession st = run \<and>
              files (startHost st) (OUTPUT_CSV h) = Some (withCsvHeader (files h (OUTPUT_CSV h)))"
  using assms by (simp add: startup_def downloadCsvFromSpreadsheet_def ensureCsvHeader_def Let_def)

text \<open>
  Claim C8, amended. A configuration file that is unreadable or has no usable search URL
  gives the default configuration, without error. \<^verbatim>\<open>getSheetConfig\<close> raises a
  configuration error exactly when the spreadsheet URL or the CSV path is missing, but
  \<^verbatim>\<open>downloadCsvFromSpreadsheet\<close> tests both first and skips the sync, leaving files and
  session as they are. A missing relay URL gives no relay configuration, and a save then
  only appends to the file. No error of the start is a configuration error: the start
  fails only on a file operation, on the browser, on a page that does not open, or on a
  sync for which both fields are present; with the sync not configured and none of the
  other failures, the start succeeds with the configuration as loaded. The exit status
  is 1 exactly when the start fails.
\<close>

theorem missing_fields_fall_back_or_disable:
  "loadConfig None env = defaultConfig \<and>
   ((\<forall>u. pSEARCH_URL parsed = JStr u \<longrightarrow> u = []) \<longrightarrow> loadConfig (Some parsed) env = defaultConfig) \<and>
   ((\<exists>err. getSheetConfig c = Inl err) \<longleftrightarrow> missing (SPREADSHEET_URL c) \<or> missing (CSV_PATH c)) \<and>
   (missing (SPREADSHEET_URL c) \<or> missing (CSV_PATH c) \<longrightarrow>
      downloadCsvFromSpreadsheet w c h run = (Inr h, run)) \<and>
   (missing (GAS_UPLOAD_URL c) \<longrightarrow>
      getGasConfig c = None \<and>
      trace (snd (saveRecordIfNew cw c r s)) =
        (if normalizeCompanyName (companyName r) \<in> existingCompanies s then trace s
         else trace s @ [AppendCsv (writtenLine cw r s)])) \<and>
   (\<forall>err. startup w file env h run = Some (Inl err) \<longrightarrow>
      (\<exists>p. err = FileFailed p) \<or> err = LaunchFailed \<or> (\<exists>u. err = NavigationFailed u) \<or>
      (\<exists>e. err = SyncFailed e \<and> (\<forall>ce. e \<noteq> ConfigError ce)) \<and>
      \<not> missing (SPREADSHEET_URL (loadConfig file env)) \<and>
      \<not> missing (CSV_PATH (loadConfig file env))) \<and>
   ((missing (SPREADSHEET_URL (loadConfig file env)) \<or> missing (CSV_PATH (loadConfig file env))) \<and>
    \<not> fsFails h (OUTPUT_CSV h) \<and> browserLaunches h \<and> pageOpens h TOP_URL \<and> loginConfirmed h \<and>
    pageOpens h (SEARCH_URL (loadConfig file env)) \<longrightarrow>
      (\<exists>st. startup w file env h run = Some (Inr st) \<and> startConfig st = loadConfig file env \<and>
            startGas st = getGasConfig (loadConfig file env) \<and> startSession st = run \<and>
            files (startHost st) (OUTPUT_CSV h) = Some (withCsvHeader (files h (OUTPUT_CSV h))))) \<and>
   (exitStatus (startup w file env h run) = Some 1 \<longleftrightarrow>
      (\<exists>err. startup w file env h run = Some (Inl err)))"
proof (intro conjI)
  show "loadConfig None env = defaultConfig" by (simp add: loadConfig_def loadConfigTry_def)
  show "(\<forall>u. pSEARCH_URL parsed = JStr u \<longrightarrow> u = []) \<longrightarrow> loadConfig (Some parsed) env = defaultConfig"
    using loadConfig_no_url by blast
  show "(\<exists>err. getSheetConfig c = Inl err) \<longleftrightarrow> missing (SPREADSHEET_URL c) \<or> missing (CSV_PATH c)"
    by (rule getSheetConfig_missing)
  show "missing (SPREADSHEET_URL c) \<or> missing (CSV_PATH c) \<longrightarrow>
      downloadCsvFromSpreadsheet w c h run = (Inr h, run)"
    by (simp add: downloadCsvFromSpreadsheet_def)
  show "missing (GAS_UPLOAD_URL c) \<longrightarrow>
      getGasConfig c = None \<and>
      trace (snd (saveRecordIfNew cw c r s)) =
        (if normalizeCompanyName (companyName r) \<in> existingCompanies s then trace s
         else trace s @ [AppendCsv (writtenLine cw r s)])"
    by (auto simp: getGasConfig_def missing_def saveRecordIfNew_def appendCsvRecord_def Let_def
        writtenLine_def emit_def split: option.splits)
  show "\<forall>err. startup w file env h run = Some (Inl err) \<longrightarrow>
      (\<exists>p. err = FileFailed p) \<or> err = LaunchFailed \<or> (\<exists>u. err = NavigationFailed u) \<or>
      (\<exists>e. err = SyncFailed e \<and> (\<forall>ce. e \<noteq> ConfigError ce)) \<and>
      \<not> missing (SPREADSHEET_URL (loadConfig file env)) \<and>
      \<not> missing (CSV_PATH (loadConfig file env))"
    using startup_errors by blast
  show "(missing (SPREADSHEET_URL (loadConfig file env)) \<or> missing (CSV_PATH (loadConfig file env))) \<and>
    \<not> fsFails h (OUTPUT_CSV h) \<and> browserLaunches h \<and> pageOpens h TOP_URL \<and> loginConfirmed h \<and>
    pageOpens h (SEARCH_URL (loadConfig file env)) \<longrightarrow>
      (\<exists>st. startup w file env h run = Some (Inr st) \<and> startConfig st = loadConfig file env \<and>
            startGas st = getGasConfig (loadConfig file env) \<and> startSession st = run \<and>
            files (startHost st) (OUTPUT_CSV h) = Some (withCsvHeader (files h (OUTPUT_CSV h))))"
    using startup_succeeds by blast
  show "exitStatus (startup w file env h run) = Some 1 \<longleftrightarrow>
      (\<exists>err. startup w file env h run = Some (Inl err))"
    by (auto simp: exitStatus_def split: option.splits sum.splits)
qed

theorem missing_fields_fall_back_or_disable_witness:
  "loadConfig (Some exampleParsedNoUrl) None = defaultConfig \<and>
   downloadCsvFromSpreadsheet exampleSessionWorld defaultConfig exampleHost (exampleSessionRun None) =
     (Inr exampleHost, exampleSessionRun None) \<and>
   getGasConfig defaultConfig = None \<and>
   (\<exists>st. startup exampleSessionWorld (Some exampleParsedNoUrl) None exampleHost (exampleSessionRun None) =
           Some (Inr st) \<and>
         startConfig st = defaultConfig \<and> startGas st = None) \<and>
   startup exampleSessionWorld (Some exampleParsedNoUrl) None (exampleHost\<lparr>browserLaunches := False\<rparr>)
     (exampleSessionRun None) = Some (Inl LaunchFailed) \<and>
   exitStatus (startup exampleSessionWorld (Some exampleParsedNoUrl) None
     (exampleHost\<lparr>browserLaunches := False\<rparr>) (exampleSessionRun None)) = Some 1"
proof -
  let ?bad = "exampleHost\<lparr>browserLaunches := False\<rparr>"
  have a: "\<forall>u. pSEARCH_URL exampleParsedNoUrl = JStr u \<longrightarrow> u = []"
    by (simp add: exampleParsedNoUrl_def)
  have b: "missing (SPREADSHEET_URL defaultConfig) \<or> missing (CSV_PATH defaultConfig)" by simp
  have g: "missing (GAS_UPLOAD_URL defaultConfig)" by simp
  note t = missing_fields_fall_back_or_disable [of None exampleParsedNoUrl defaultConfig
      exampleSessionWorld exampleHost "exampleSessionRun None" exampleWorld exampleRecord
      "startOfRun {} []" "Some exampleParsedNoUrl"]
  from t a have c: "loadConfig (Some exampleParsedNoUrl) None = defaultConfig" by blast
  from t b have d: "downloadCsvFromSpreadsheet exampleSessionWorld defaultConfig exampleHost
      (exampleSessionRun None) = (Inr exampleHost, exampleSessionRun None)" by blast
  from t g have n: "getGasConfig defaultConfig = None" by blast
  have ok: "(missing (SPREADSHEET_URL (loadConfig (Some exampleParsedNoUrl) None)) \<or>
             missing (CSV_PATH (loadConfig (Some exampleParsedNoUrl) None))) \<and>
    \<not> fsFails exampleHost (OUTPUT_CSV exampleHost) \<and> browserLaunches exampleHost \<and>
    pageOpens exampleHost TOP_URL \<and> loginConfirmed exampleHost \<and>
    pageOpens exampleHost (SEARCH_URL (loadConfig (Some exampleParsedNoUrl) None))"
    by (simp add: c) (simp add: exampleHost_def)
  from t [THEN conjunct2, THEN conjunct2, THEN conjunct2, THEN conjunct2, THEN conjunct2,
      THEN conjunct2, THEN conjunct1, THEN mp, OF ok] c n
  have good: "\<exists>st. startup exampleSessionWorld (Some exampleParsedNoUrl) None exampleHost
        (exampleSessionRun None) = Some (Inr st) \<and>
      startConfig st = defaultConfig \<and> startGas st = None" by auto
  have fails: "startup exampleSessionWorld (Some exampleParsedNoUrl) None ?bad (exampleSessionRun None) =
      Some (Inl LaunchFailed)"
    by (simp add: startup_def c downloadCsvFromSpreadsheet_def ensureCsvHeader_def Let_def exampleHost_def)
  note u = missing_fields_fall_back_or_disable [of None exampleParsedNoUrl defaultConfig
      exampleSessionWorld ?bad "exampleSessionRun None" exampleWorld exampleRecord
      "startOfRun {} []" "Some exampleParsedNoUrl"]
  from u fails have "exitStatus (startup exampleSessionWorld (Some exampleParsedNoUrl) None ?bad
      (exampleSessionRun None)) = Some 1" by blast
  with c d n good fails show ?thesis by blast
qed

section \<open>Properties of the relay\<close>

lemma postRowToGas_cases:
  "postRowToGas w gas row s =
     (if \<not> urlParses w (uploadUrl gas) then (Inl GasUrlInvalid, s)
      else (case fetchAt w (length (trace s)) of
              FetchAborted \<Rightarrow> Inl GasTimeout
            | FetchError \<Rightarrow> Inl GasNetwork
            | FetchResponse status text \<Rightarrow>
                if 200 \<le> status \<and> status \<le> 299
                then Inr (if text \<noteq> [] then text else ascii ''HTTP '' @ decimal status)
                else Inl (GasRejected status text),
            emit [PostGas \<lparr>requestUrl = uploadUrl gas, requestRow = row,
                   requestToken = (case token gas of None \<Rightarrow> [] | Some t \<Rightarrow> t),
                   authHeader = (if missing (token gas) then None else token gas),
                   timeoutMs = 10000\<rparr>] s))"
  by (auto simp: postRowToGas_def Let_def split: fetchOutcome.splits)

text \<open>
  Claim C6. \<^verbatim>\<open>appendCsvRecord\<close> always returns. The line is appended to the CSV file first;
  what follows in the trace is the relay only, and nothing more is written to the file.
  Whatever the relay does (the URL does not parse, the request is aborted after 10000 ms,
  the network fails, the answer is not 2xx), the error is logged, and the file, the
  identity set and the counter are as the append left them.
\<close>

theorem relay_failure_keeps_ledger:
  "csvFile (appendCsvRecord w r g s) = csvFile s @ writtenLine w r s \<and>
   existingCompanies (appendCsvRecord w r g s) = existingCompanies s \<and>
   addedCompanyCount (appendCsvRecord w r g s) = addedCompanyCount s \<and>
   (\<exists>rest. trace (appendCsvRecord w r g s) = trace s @ AppendCsv (writtenLine w r s) # rest \<and>
      (\<forall>e \<in> set rest. \<forall>l. e \<noteq> AppendCsv l) \<and>
      (g = None \<longrightarrow> rest = []) \<and>
      (\<forall>gas. g = Some gas \<longrightarrow>
         (\<not> urlParses w (uploadUrl gas) \<longrightarrow> rest = [LogGasError GasUrlInvalid]) \<and>
         (urlParses w (uploadUrl gas) \<longrightarrow>
            (\<exists>req. requestRow req = gasRow r (listSourceOf (timestampAt w (length (trace s)))) \<and>
               timeoutMs req = 10000 \<and>
               (case fetchAt w (length (trace s) + 1) of
                  FetchAborted \<Rightarrow> rest = [PostGas req, LogGasError GasTimeout]
                | FetchError \<Rightarrow> rest = [PostGas req, LogGasError GasNetwork]
                | FetchResponse status text \<Rightarrow>
                    if 200 \<le> status \<and> status \<le> 299
                    then \<exists>resp. rest = [PostGas req, LogGasReply resp]
                    else rest = [PostGas req, LogGasError (GasRejected status text)])))))"
  by (cases g)
     (auto simp: appendCsvRecord_def postRowToGas_cases writtenLine_def emit_def Let_def
       split: fetchOutcome.splits)


theorem relay_failure_keeps_ledger_witness:
  "csvFile (appendCsvRecord exampleWorld exampleRecord (Some exampleGas) (startOfRun {} [])) =
     writtenLine exampleWorld exampleRecord (startOfRun {} []) \<and>
   (\<exists>req. trace (appendCsvRecord exampleWorld exampleRecord (Some exampleGas) (startOfRun {} [])) =
      [AppendCsv (writtenLine exampleWorld exampleRecord (startOfRun {} [])), PostGas req,
       LogGasError GasTimeout])"
proof -
  let ?s = "startOfRun {} []"
  let ?s' = "appendCsvRecord exampleWorld exampleRecord (Some exampleGas) ?s"
  note t = relay_failure_keeps_ledger [of exampleWorld exampleRecord "Some exampleGas" ?s]
  have written: "csvFile ?s' = writtenLine exampleWorld exampleRecord ?s"
    using t by (simp add: startOfRun_def)
  from t obtain rest where
    tr: "trace ?s' = trace ?s @ AppendCsv (writtenLine exampleWorld exampleRecord ?s) # rest"
    and relay: "\<forall>gas. Some exampleGas = Some gas \<longrightarrow>
         (\<not> urlParses exampleWorld (uploadUrl gas) \<longrightarrow> rest = [LogGasError GasUrlInvalid]) \<and>
         (urlParses exampleWorld (uploadUrl gas) \<longrightarrow>
            (\<exists>req. requestRow req = gasRow exampleRecord (listSourceOf (timestampAt exampleWorld (length (trace ?s)))) \<and>
               timeoutMs req = 10000 \<and>
               (case fetchAt exampleWorld (length (trace ?s) + 1) of
                  FetchAborted \<Rightarrow> rest = [PostGas req, LogGasError GasTimeout]
                | FetchError \<Rightarrow> rest = [PostGas req, LogGasError GasNetwork]
                | FetchResponse status text \<Rightarrow>
                    if 200 \<le> status \<and> status \<le> 299
                    then \<exists>resp. rest = [PostGas req, LogGasReply resp]
                    else rest = [PostGas req, LogGasError (GasRejected status text)])))"
    by blast
  have p: "urlParses exampleWorld (uploadUrl exampleGas)" by (simp add: exampleWorld_def)
  have f: "fetchAt exampleWorld (length (trace ?s) + 1) = FetchAborted" by (simp add: exampleWorld_def)
  from relay p f obtain req where "rest = [PostGas req, LogGasError GasTimeout]" by auto
  with tr have "trace ?s' = [AppendCsv (writtenLine exampleWorld exampleRecord ?s), PostGas req,
       LogGasError GasTimeout]" by (simp add: startOfRun_def)
  with written show ?thesis by blast
qed


section \<open>Properties of the crawl\<close>

subsection \<open>Events and pauses\<close>

lemma emit_simps [simp]:
  "trace (emit es s) = trace s @ es"
  "existingCompanies (emit es s) = existingCompanies s"
  "csvFile (emit es s) = csvFile s"
  "addedCompanyCount (emit es s) = addedCompanyCount s"
  "emit [] s = s"
  "emit es (emit ds s) = emit (ds @ es) s"
  by (simp_all add: emit_def)

lemma waitIfPaused_Some:
  "waitIfPaused w s = Some s' \<Longrightarrow> \<exists>n. s' = emit (replicate n PauseSleep) s"
proof (induction rule: waitIfPaused.raw_induct [rotated 1, consumes 1])
  case (1 wait w s s')
  show ?case
  proof (cases "isPaused w s \<and> \<not> shouldStop w s")
    case True
    with 1 obtain n where "s' = emit (replicate n PauseSleep) (emit [PauseSleep] s)" by fastforce
    then have "s' = emit (replicate (Suc n) PauseSleep) s" by simp
    then show ?thesis by blast
  next
    case False
    with 1 have "s' = emit (replicate 0 PauseSleep) s" by simp
    then show ?thesis by blast
  qed
qed

lemma waitIfPaused_not_paused: "\<not> isPaused w s \<Longrightarrow> waitIfPaused w s = Some s"
  by (subst waitIfPaused.simps) simp

subsection \<open>Scoring\<close>

lemma hd_insort_key:
  "hd (insort_key f x ys) = (if ys = [] \<or> f x \<le> f (hd ys) then x else hd ys)"
  by (cases ys) simp_all

lemma insort_key_not_Nil [simp]: "insort_key f x ys \<noteq> []"
  by (cases ys) simp_all

lemma sort_key_hd_first_min:
  "xs \<noteq> [] \<Longrightarrow>
   \<exists>i < length xs. hd (sort_key f xs) = xs ! i \<and> (\<forall>j < length xs. f (xs ! i) \<le> f (xs ! j)) \<and>
     (\<forall>j < i. f (xs ! i) < f (xs ! j))"
proof (induction xs)
  case Nil
  then show ?case by simp
next
  case (Cons x xs)
  show ?case
  proof (cases "xs = []")
    case True
    then show ?thesis by simp
  next
    case False
    with Cons.IH obtain i where i: "i < length xs" and h: "hd (sort_key f xs) = xs ! i"
      and le: "\<forall>j < length xs. f (xs ! i) \<le> f (xs ! j)"
      and less: "\<forall>j < i. f (xs ! i) < f (xs ! j)" by blast
    have ne: "sort_key f xs \<noteq> []" using False by (cases xs) simp_all
    show ?thesis
    proof (cases "f x \<le> f (xs ! i)")
      case True
      have "hd (sort_key f (x # xs)) = (x # xs) ! 0"
        using True h ne by (simp add: hd_insort_key)
      moreover have "\<forall>j < length (x # xs). f ((x # xs) ! 0) \<le> f ((x # xs) ! j)"
      proof (intro allI impI)
        fix j assume "j < length (x # xs)"
        then show "f ((x # xs) ! 0) \<le> f ((x # xs) ! j)"
          using True le by (cases j) (auto intro: order_trans)
      qed
      ultimately show ?thesis by (intro exI [of _ 0]) simp
    next
      case False
      then have lt: "f (xs ! i) < f x" by simp
      have "hd (sort_key f (x # xs)) = (x # xs) ! Suc i"
        using False h ne by (simp add: hd_insort_key)
      moreover have "\<forall>j < length (x # xs). f ((x # xs) ! Suc i) \<le> f ((x # xs) ! j)"
      proof (intro allI impI)
        fix j assume "j < length (x # xs)"
        then show "f ((x # xs) ! Suc i) \<le> f ((x # xs) ! j)"
          using lt le by (cases j) auto
      qed
      moreover have "\<forall>j < Suc i. f ((x # xs) ! Suc i) < f ((x # xs) ! j)"
      proof (intro allI impI)
        fix j assume "j < Suc i"
        then show "f ((x # xs) ! Suc i) < f ((x # xs) ! j)"
          using lt less by (cases j) auto
      qed
      ultimately show ?thesis using i by (intro exI [of _ "Suc i"]) simp
    qed
  qed
qed

lemma bestCourse_first_max:
  assumes "cs \<noteq> []"
  shows "\<exists>i < length cs. bestCourse cs = Some (cs ! i) \<and>
           (\<forall>j < length cs. courseScore (cs ! j) \<le> courseScore (cs ! i)) \<and>
           (\<forall>j < i. courseScore (cs ! j) < courseScore (cs ! i))"
proof -
  let ?sc = "scoredCourses cs" and ?f = "\<lambda>x :: courseData \<times> nat. - int (snd x)"
  have ne: "?sc \<noteq> []" using assms by (simp add: scoredCourses_def)
  have len: "length ?sc = length cs" by (simp add: scoredCourses_def)
  have nth: "\<And>j. j < length cs \<Longrightarrow> ?sc ! j = (cs ! j, courseScore (cs ! j))"
    by (simp add: scoredCourses_def)
  from sort_key_hd_first_min [OF ne, of ?f] obtain i where i: "i < length cs"
    and h: "hd (sort_key ?f ?sc) = ?sc ! i"
    and le: "\<forall>j < length cs. ?f (?sc ! i) \<le> ?f (?sc ! j)"
    and less: "\<forall>j < i. ?f (?sc ! i) < ?f (?sc ! j)"
    unfolding len by blast
  have sne: "sort_key ?f ?sc \<noteq> []" using ne by (cases ?sc) simp_all
  then obtain b bs where s: "sort_key ?f ?sc = b # bs" by (cases "sort_key ?f ?sc") auto
  with h have "b = ?sc ! i" by simp
  then have best: "bestCourse cs = Some (cs ! i)"
    using s i by (simp add: bestCourse_def sortByScore_def nth)
  have "\<forall>j < length cs. courseScore (cs ! j) \<le> courseScore (cs ! i)"
    using le i by (simp add: nth)
  moreover have "\<forall>j < i. courseScore (cs ! j) < courseScore (cs ! i)"
    using less i by (simp add: nth)
  ultimately show ?thesis using i best by blast
qed


subsection \<open>The course loop\<close>

lemma extracted_append [simp]: "extracted (xs @ ys) = extracted xs @ extracted ys"
  by (induction xs rule: extracted.induct) simp_all

lemma extracted_pause [simp]: "extracted (replicate n PauseSleep) = []"
  by (induction n) simp_all

lemma tablesFound_simps [simp]:
  "tablesFound w name [] = []"
  "tablesFound w name (u # us) =
     (case tableAt w u of TableFound d \<Rightarrow> [d\<lparr>courseCompanyName := name\<rparr>] | _ \<Rightarrow> []) @ tablesFound w name us"
  by (simp_all add: tablesFound_def)

lemma courseLoop_trace:
  "courseLoop w name links acc s = Some (res, s') \<Longrightarrow>
   \<exists>d. s' = emit d s \<and> prefix (extracted d) links \<and>
       (\<forall>u \<in> set (butlast (extracted d)). \<not> bothFound (tableAt w u)) \<and>
       (\<forall>cs. res = Some cs \<longrightarrow> cs = acc @ tablesFound w name (extracted d))"
proof (induction links arbitrary: acc s)
  case Nil
  then have "s' = emit [] s \<and> res = Some acc" by simp
  then show ?case by (intro exI [of _ "[]"]) simp
next
  case (Cons u links)
  show ?case
  proof (cases "shouldStop w s")
    case True
    with Cons.prems have "s' = emit [] s \<and> res = Some acc" by simp
    then show ?thesis by (intro exI [of _ "[]"]) simp
  next
    case False
    with Cons.prems obtain s1 where w1: "waitIfPaused w s = Some s1"
      by (cases "waitIfPaused w s") simp_all
    then obtain n where s1: "s1 = emit (replicate n PauseSleep) s"
      using waitIfPaused_Some by blast
    let ?pre = "replicate n PauseSleep @ [Delay DELAY_MS, ExtractTable u]"
    let ?s2 = "emit ?pre s"
    have s2: "emit [Delay DELAY_MS, ExtractTable u] s1 = ?s2" by (simp add: s1)
    have ex: "extracted ?pre = [u]" by simp
    show ?thesis
    proof (cases "tableAt w u")
      case TableThrows
      with Cons.prems False w1 s2 have "s' = ?s2 \<and> res = None" by (simp add: Let_def)
      then show ?thesis using ex by (intro exI [of _ ?pre]) simp
    next
      case TableMissing
      with Cons.prems False w1 s2 have "courseLoop w name links acc ?s2 = Some (res, s')"
        by (simp add: Let_def)
      from Cons.IH [OF this] obtain d where d: "s' = emit d ?s2" "prefix (extracted d) links"
        "\<forall>x \<in> set (butlast (extracted d)). \<not> bothFound (tableAt w x)"
        "\<forall>cs. res = Some cs \<longrightarrow> cs = acc @ tablesFound w name (extracted d)" by blast
      have "extracted (?pre @ d) = u # extracted d" by simp
      then show ?thesis using d TableMissing
        by (intro exI [of _ "?pre @ d"]) (auto simp: butlast_append split: if_splits)
    next
      case (TableFound c)
      let ?acc = "acc @ [c\<lparr>courseCompanyName := name\<rparr>]"
      show ?thesis
      proof (cases "phones c \<noteq> [] \<and> emails c \<noteq> []")
        case True
        with Cons.prems False w1 s2 TableFound have "s' = ?s2 \<and> res = Some ?acc"
          by (simp add: Let_def)
        then show ?thesis using ex TableFound by (intro exI [of _ ?pre]) simp
      next
        case nb: False
        with Cons.prems False w1 s2 TableFound
        have "courseLoop w name links ?acc ?s2 = Some (res, s')"
          by (auto simp: Let_def)
        from Cons.IH [OF this] obtain d where d: "s' = emit d ?s2" "prefix (extracted d) links"
          "\<forall>x \<in> set (butlast (extracted d)). \<not> bothFound (tableAt w x)"
          "\<forall>cs. res = Some cs \<longrightarrow> cs = ?acc @ tablesFound w name (extracted d)" by blast
        have "extracted (?pre @ d) = u # extracted d" by simp
        then show ?thesis using d TableFound nb
          by (intro exI [of _ "?pre @ d"]) (auto simp: butlast_append split: if_splits)
      qed
    qed
  qed
qed










lemma exampleWorld_quiet [simp]:
  "\<not> shouldStop exampleWorld s" "\<not> isPaused exampleWorld s" "waitIfPaused exampleWorld s = Some s"
  by (simp_all add: shouldStop_def isPaused_def exampleWorld_def waitIfPaused_not_paused)

lemma example_scores:
  "map courseScore exampleCandidates = [0, 2, 3, 1]"
  by (simp add: exampleCandidates_def courseScore_def phoneOnly_def phoneAndEmail_def Let_def)




lemma normalize_Nil [simp]: "normalizeCompanyName [] = []"
  by (simp add: normalizeCompanyName_def trim_def)

lemma appendCsvRecord_fields [simp]:
  "existingCompanies (appendCsvRecord w r g s) = existingCompanies s"
  "addedCompanyCount (appendCsvRecord w r g s) = addedCompanyCount s"
  by (auto simp: appendCsvRecord_def postRowToGas_def Let_def
      split: option.splits prod.splits sum.splits fetchOutcome.splits if_splits)

subsection \<open>One company: what it adds to the trace\<close>

lemma waitIfPaused_paused:
  "isPaused w s \<Longrightarrow> \<not> shouldStop w s \<Longrightarrow> waitIfPaused w s = waitIfPaused w (emit [PauseSleep] s)"
  by (subst waitIfPaused.simps) simp

lemmas crawl_evals =
  processCompany_def persistCourses_def saveRecordIfNew_def appendCsvRecord_def counted_def
  capReached_def exampleConfig_def getGasConfig_def defaultConfig_def checkCompanyExists_def
  bestCourse_def sortByScore_def scoredCourses_def courseScore_def courseRecord_def
  noCourseRecord_def noTableRecord_def extractCompanyMetaFromOutline_def orElse_def firstOr_def
  startOfRun_def emit_def shouldStop_def isPaused_def Let_def phoneOnly_def phoneAndEmail_def

lemma pausedWorld_A:
  "processCompany pausedWorld (exampleConfig None) ([65], ascii ''a/outline'') (startOfRun {} []) =
   Some (Continue,
     \<lparr>trace = [Delay DELAY_MS, Goto (ascii ''a/outline''), Delay DELAY_MS, Goto (ascii ''a/is''),
               PauseSleep, Delay DELAY_MS, ExtractTable (ascii ''a/c1''),
               Delay DELAY_MS, ExtractTable (ascii ''a/c2''),
               AppendCsv (csvLine (courseRecord [65]
                  \<lparr>metaIndustry = extractionFailed, metaHeadOffice = extractionFailed,
                   metaAnnualRecruitment = [], metaCompanySize = []\<rparr>
                  ((phoneAndEmail (ascii ''a/c2''))\<lparr>courseCompanyName := [65]\<rparr>))
                  (listSourceOf (ascii ''2026-01-02 03:04:05'')))],
      existingCompanies = {[65]},
      csvFile = csvLine (courseRecord [65]
                  \<lparr>metaIndustry = extractionFailed, metaHeadOffice = extractionFailed,
                   metaAnnualRecruitment = [], metaCompanySize = []\<rparr>
                  ((phoneAndEmail (ascii ''a/c2''))\<lparr>courseCompanyName := [65]\<rparr>))
                  (listSourceOf (ascii ''2026-01-02 03:04:05'')),
      addedCompanyCount = 1\<rparr>)"
  by (simp add: crawl_evals pausedWorld_def exampleWorld_def evals ascii_def
      waitIfPaused_paused waitIfPaused_not_paused)

text \<open>Events of the relay: no page load, no pause, no append.\<close>

lemma appendCsvRecord_trace:
  "\<exists>line rest. trace (appendCsvRecord w r g s) = trace s @ AppendCsv line # rest \<and>
     (\<forall>e \<in> set rest. \<not> isNavigation e \<and> e \<noteq> PauseSleep) \<and> appended rest = []"
  by (cases g)
     (auto simp: appendCsvRecord_def postRowToGas_def emit_def Let_def
       split: fetchOutcome.splits)

lemma saveRecordIfNew_effect:
  assumes "saveRecordIfNew w config r s = (skipped, s1)"
  shows "(skipped \<longrightarrow> s1 = s) \<and>
         (\<not> skipped \<longrightarrow> addedCompanyCount s1 = addedCompanyCount s \<and>
            (\<exists>line rest. trace s1 = trace s @ AppendCsv line # rest \<and>
               (\<forall>e \<in> set rest. \<not> isNavigation e \<and> e \<noteq> PauseSleep) \<and> appended rest = []))"
proof (cases "normalizeCompanyName (companyName r) \<in> existingCompanies s")
  case True
  with assms show ?thesis by (simp add: saveRecordIfNew_def Let_def)
next
  case False
  let ?s0 = "s\<lparr>existingCompanies := insert (normalizeCompanyName (companyName r)) (existingCompanies s)\<rparr>"
  from False assms have "\<not> skipped" and s1: "s1 = appendCsvRecord w r (getGasConfig config) ?s0"
    by (auto simp: saveRecordIfNew_def Let_def)
  moreover from appendCsvRecord_trace [of w r "getGasConfig config" ?s0]
  obtain line rest where "trace s1 = trace s @ AppendCsv line # rest"
    "\<forall>e \<in> set rest. \<not> isNavigation e \<and> e \<noteq> PauseSleep" "appended rest = []"
    unfolding s1 by auto
  ultimately show ?thesis by (auto simp: s1)
qed

lemma getGasConfig_cap [simp]:
  "getGasConfig (config\<lparr>MAX_COMPANIES := cap\<rparr>) = getGasConfig config"
  by (simp add: getGasConfig_def split: option.splits)

lemma saveRecordIfNew_config:
  "saveRecordIfNew w (config\<lparr>MAX_COMPANIES := cap\<rparr>) r s = saveRecordIfNew w config r s"
  by (cases "normalizeCompanyName (companyName r) \<in> existingCompanies s")
     (simp_all add: saveRecordIfNew_def Let_def)


lemma counted_effect:
  "counted cap s = (ctl, s1) \<Longrightarrow>
   s1 = s\<lparr>addedCompanyCount := addedCompanyCount s + 1\<rparr> \<and> (ctl = Break \<longleftrightarrow> capReached cap s1)"
  by (auto simp: counted_def Let_def split: if_splits)

lemma persistCourses_effect:
  assumes "persistCourses w config name meta u cs s = (ctl, s1)"
  shows "\<exists>d. trace s1 = trace s @ d \<and>
           ((d = [] \<and> addedCompanyCount s1 = addedCompanyCount s \<and>
               (ctl = Break \<longrightarrow> capReached (MAX_COMPANIES config) s)) \<or>
            (oneSave d \<and> addedCompanyCount s1 = addedCompanyCount s + 1 \<and>
               (ctl = Break \<longleftrightarrow> capReached (MAX_COMPANIES config) s1)))"
proof -
  obtain r where r: "(cs = [] \<and> r = noTableRecord name meta u) \<or>
      (\<exists>b. cs \<noteq> [] \<and> bestCourse cs = Some b \<and> r = courseRecord name meta b)"
    using bestCourse_first_max [of cs] by (cases "cs = []") auto
  obtain skipped s0 where sv: "saveRecordIfNew w config r s = (skipped, s0)"
    by (cases "saveRecordIfNew w config r s") auto
  note e = saveRecordIfNew_effect [OF sv]
  show ?thesis
  proof (cases skipped)
    case True
    with e have "s0 = s" by simp
    with assms r sv True have "s1 = s \<and> (ctl = Break \<longrightarrow> capReached (MAX_COMPANIES config) s)"
      by (auto simp: persistCourses_def split: if_splits)
    then show ?thesis by (intro exI [of _ "[]"]) simp
  next
    case False
    with assms r sv have c: "counted (MAX_COMPANIES config) s0 = (ctl, s1)"
      by (auto simp: persistCourses_def split: if_splits)
    from e False obtain line rest where "trace s0 = trace s @ AppendCsv line # rest"
      "\<forall>e \<in> set rest. \<not> isNavigation e \<and> e \<noteq> PauseSleep" "appended rest = []"
      "addedCompanyCount s0 = addedCompanyCount s" by auto
    with counted_effect [OF c] show ?thesis
      by (intro exI [of _ "AppendCsv line # rest"]) (auto simp: oneSave_def)
  qed
qed

lemma pauses_pausefree:
  "PauseSleep \<notin> set pre \<Longrightarrow> pausesBeforeCourse (pre @ post) = pausesBeforeCourse post"
  by (induction pre) auto

lemma pauses_block:
  "pausesBeforeCourse (replicate n PauseSleep @ Delay m # ExtractTable u # rest) =
   pausesBeforeCourse rest"
proof (induction n)
  case 0
  show ?case by simp
next
  case (Suc n)
  show ?case
  proof (cases n)
    case 0
    then show ?thesis by (simp add: courseFetchNext_def)
  next
    case (Suc k)
    then show ?thesis using Suc.IH by (simp add: courseFetchNext_def)
  qed
qed

lemma appended_append [simp]: "appended (xs @ ys) = appended xs @ appended ys"
  by (induction xs rule: appended.induct) simp_all

lemma appended_pause [simp]: "appended (replicate n PauseSleep) = []"
  by (induction n) simp_all

lemma courseLoop_pauses:
  "courseLoop w name links acc s = Some (res, s') \<Longrightarrow>
   \<exists>d. s' = emit d s \<and> appended d = [] \<and>
       (\<forall>post. pausesBeforeCourse (d @ post) = pausesBeforeCourse post)"
proof (induction links arbitrary: acc s)
  case Nil
  then have "s' = emit [] s" by simp
  then show ?case by (intro exI [of _ "[]"]) simp
next
  case (Cons u links)
  show ?case
  proof (cases "shouldStop w s")
    case True
    with Cons.prems have "s' = emit [] s" by simp
    then show ?thesis by (intro exI [of _ "[]"]) simp
  next
    case False
    with Cons.prems obtain s1 where w1: "waitIfPaused w s = Some s1"
      by (cases "waitIfPaused w s") simp_all
    then obtain n where s1: "s1 = emit (replicate n PauseSleep) s"
      using waitIfPaused_Some by blast
    let ?pre = "replicate n PauseSleep @ [Delay DELAY_MS, ExtractTable u]"
    let ?s2 = "emit ?pre s"
    have s2: "emit [Delay DELAY_MS, ExtractTable u] s1 = ?s2" by (simp add: s1)
    have blk: "\<And>post. pausesBeforeCourse (?pre @ post) = pausesBeforeCourse post"
      using pauses_block [of n DELAY_MS u] by simp
    have ap: "appended ?pre = []" by simp
    from Cons.prems False w1 s2
    have "(s' = ?s2) \<or> (\<exists>acc'. courseLoop w name links acc' ?s2 = Some (res, s'))"
      by (cases "tableAt w u") (auto simp: Let_def split: if_splits)
    then show ?thesis
    proof
      assume "s' = ?s2"
      then show ?thesis using blk ap by (intro exI [of _ ?pre]) simp
    next
      assume "\<exists>acc'. courseLoop w name links acc' ?s2 = Some (res, s')"
      then obtain acc' where "courseLoop w name links acc' ?s2 = Some (res, s')" by blast
      from Cons.IH [OF this] obtain d where d: "s' = emit d ?s2" "appended d = []"
        "\<forall>post. pausesBeforeCourse (d @ post) = pausesBeforeCourse post" by blast
      have "\<forall>post. pausesBeforeCourse ((?pre @ d) @ post) = pausesBeforeCourse post"
        using blk d(3) by (metis append_assoc)
      then show ?thesis using d ap by (intro exI [of _ "?pre @ d"]) simp
    qed
  qed
qed

lemma capReached_count:
  "addedCompanyCount s' = addedCompanyCount s \<Longrightarrow> capReached cap s' = capReached cap s"
  by (simp add: capReached_def split: option.splits)

lemma capReached_emit [simp]: "capReached cap (emit es s) = capReached cap s"
  by (simp add: capReached_def split: option.splits)

lemma persistCourses_effect':
  assumes "persistCourses w config name meta u cs s = (ctl, s1)"
  shows "\<exists>sv. trace s1 = trace s @ sv \<and>
           ((sv = [] \<and> addedCompanyCount s1 = addedCompanyCount s \<and>
               (ctl = Break \<longrightarrow> capReached (MAX_COMPANIES config) s)) \<or>
            (oneSave sv \<and> addedCompanyCount s1 = addedCompanyCount s + 1 \<and>
               (ctl = Break \<longleftrightarrow> capReached (MAX_COMPANIES config) s1)))"
  using persistCourses_effect [OF assms] .

lemma noCourse_effect:
  assumes "(case saveRecordIfNew w config r s of
              (True, s4) \<Rightarrow> Some (Continue, s4)
            | (False, s4) \<Rightarrow> Some (counted (MAX_COMPANIES config) s4)) = Some (ctl, s1)"
  shows "\<exists>sv. trace s1 = trace s @ sv \<and>
           ((sv = [] \<and> addedCompanyCount s1 = addedCompanyCount s \<and>
               (ctl = Break \<longrightarrow> capReached (MAX_COMPANIES config) s)) \<or>
            (oneSave sv \<and> addedCompanyCount s1 = addedCompanyCount s + 1 \<and>
               (ctl = Break \<longleftrightarrow> capReached (MAX_COMPANIES config) s1)))"
proof -
  obtain skipped s0 where sv: "saveRecordIfNew w config r s = (skipped, s0)"
    by (cases "saveRecordIfNew w config r s") auto
  note e = saveRecordIfNew_effect [OF sv]
  show ?thesis
  proof (cases skipped)
    case True
    with e assms sv have "s1 = s \<and> ctl = Continue" by simp
    then show ?thesis by (intro exI [of _ "[]"]) simp
  next
    case False
    with assms sv have c: "counted (MAX_COMPANIES config) s0 = (ctl, s1)" by simp
    from e False obtain line rest where "trace s0 = trace s @ AppendCsv line # rest"
      "\<forall>e \<in> set rest. \<not> isNavigation e \<and> e \<noteq> PauseSleep" "appended rest = []"
      "addedCompanyCount s0 = addedCompanyCount s" by auto
    with counted_effect [OF c] show ?thesis
      by (intro exI [of _ "AppendCsv line # rest"]) (auto simp: oneSave_def)
  qed
qed

text \<open>What the work on one company adds to the trace and to the counter.\<close>

lemma processCompany_effect:
  assumes "processCompany w config link s = Some (ctl, s')"
  shows "\<exists>pre sv. trace s' = trace s @ pre @ sv \<and> appended pre = [] \<and>
           (\<forall>post. pausesBeforeCourse (pre @ post) = pausesBeforeCourse post) \<and>
           (courseLinks (siteOf w (snd link)) = [] \<longrightarrow> PauseSleep \<notin> set pre) \<and>
           ((sv = [] \<and> addedCompanyCount s' = addedCompanyCount s \<and>
               (ctl = Break \<longrightarrow> capReached (MAX_COMPANIES config) s)) \<or>
            (oneSave sv \<and> addedCompanyCount s' = addedCompanyCount s + 1 \<and>
               (ctl = Break \<longleftrightarrow> capReached (MAX_COMPANIES config) s')))"
proof -
  let ?name = "fst link" and ?url = "snd link"
  let ?cap = "MAX_COMPANIES config"
  let ?goal = "\<lambda>pre sv. trace s' = trace s @ pre @ sv \<and> appended pre = [] \<and>
           (\<forall>post. pausesBeforeCourse (pre @ post) = pausesBeforeCourse post) \<and>
           (courseLinks (siteOf w ?url) = [] \<longrightarrow> PauseSleep \<notin> set pre) \<and>
           ((sv = [] \<and> addedCompanyCount s' = addedCompanyCount s \<and>
               (ctl = Break \<longrightarrow> capReached ?cap s)) \<or>
            (oneSave sv \<and> addedCompanyCount s' = addedCompanyCount s + 1 \<and>
               (ctl = Break \<longleftrightarrow> capReached ?cap s')))"
  have quiet: "\<And>pre. PauseSleep \<notin> set pre \<Longrightarrow> appended pre = [] \<Longrightarrow> s' = emit pre s \<Longrightarrow>
      ctl = Continue \<Longrightarrow> ?goal pre []"
    by (simp add: pauses_pausefree)
  show ?thesis
  proof (cases "?name = [] \<or> checkCompanyExists ?name (existingCompanies s)")
    case True
    with assms have "trace s' = trace s \<and> addedCompanyCount s' = addedCompanyCount s \<and> ctl = Continue"
      by (auto simp: processCompany_def Let_def split: if_splits)
    then have "?goal [] []" by simp
    then show ?thesis by blast
  next
    case started: False
    let ?n1 = "[Delay DELAY_MS, Goto ?url]"
    show ?thesis
    proof (cases "outline (siteOf w ?url)")
      case OutlineThrows
      with assms started have "s' = emit ?n1 s \<and> ctl = Continue"
        by (simp add: processCompany_def Let_def)
      then have "?goal ?n1 []" by (intro quiet) simp_all
      then show ?thesis by blast
    next
      case (Outline raw currentUrl)
      let ?meta = "extractCompanyMetaFromOutline raw"
      let ?is = "replaceFirst currentUrl (ascii ''outline'') (ascii ''is'')"
      let ?n2 = "?n1 @ [Delay DELAY_MS, Goto ?is]"
      show ?thesis
      proof (cases "includesStr currentUrl (ascii ''outline'')")
        case False
        with assms started Outline have "s' = emit ?n1 s \<and> ctl = Continue"
          by (simp add: processCompany_def Let_def)
        then have "?goal ?n1 []" by (intro quiet) simp_all
        then show ?thesis by blast
      next
        case inc: True
        show ?thesis
        proof (cases "isPageOpens (siteOf w ?url)")
          case False
          with assms started Outline inc have "s' = emit ?n2 s \<and> ctl = Continue"
            by (simp add: processCompany_def Let_def)
          then have "?goal ?n2 []" by (intro quiet) simp_all
          then show ?thesis by blast
        next
          case opens: True
          show ?thesis
          proof (cases "courseLinks (siteOf w ?url) = []")
            case nolinks: True
            let ?n3 = "?n2 @ [ExtractTable ?is]"
            let ?s3 = "emit ?n3 s"
            have q3: "PauseSleep \<notin> set ?n3" "appended ?n3 = []" by simp_all
            from assms started Outline inc opens nolinks
            have disj: "(\<exists>cs. persistCourses w config ?name ?meta ?is cs ?s3 = (ctl, s')) \<or>
                  (case saveRecordIfNew w config (noCourseRecord ?name ?meta ?is) ?s3 of
                     (True, s4) \<Rightarrow> Some (Continue, s4)
                   | (False, s4) \<Rightarrow> Some (counted ?cap s4)) = Some (ctl, s')"
              by (cases "tableAt w ?is") (auto simp: processCompany_def Let_def)
            have "\<exists>sv. trace s' = trace ?s3 @ sv \<and>
              ((sv = [] \<and> addedCompanyCount s' = addedCompanyCount ?s3 \<and>
                 (ctl = Break \<longrightarrow> capReached ?cap ?s3)) \<or>
               (oneSave sv \<and> addedCompanyCount s' = addedCompanyCount ?s3 + 1 \<and>
                 (ctl = Break \<longleftrightarrow> capReached ?cap s')))"
            proof (rule disjE [OF disj])
              assume "\<exists>cs. persistCourses w config ?name ?meta ?is cs ?s3 = (ctl, s')"
              then obtain cs where c: "persistCourses w config ?name ?meta ?is cs ?s3 = (ctl, s')"
                by (rule exE)
              show ?thesis by (rule persistCourses_effect' [OF c])
            next
              assume n: "(case saveRecordIfNew w config (noCourseRecord ?name ?meta ?is) ?s3 of
                     (True, s4) \<Rightarrow> Some (Continue, s4)
                   | (False, s4) \<Rightarrow> Some (counted ?cap s4)) = Some (ctl, s')"
              show ?thesis by (rule noCourse_effect [OF n])
            qed
            then obtain sv where "trace s' = trace ?s3 @ sv"
              "(sv = [] \<and> addedCompanyCount s' = addedCompanyCount ?s3 \<and>
                 (ctl = Break \<longrightarrow> capReached ?cap ?s3)) \<or>
               (oneSave sv \<and> addedCompanyCount s' = addedCompanyCount ?s3 + 1 \<and>
                 (ctl = Break \<longleftrightarrow> capReached ?cap s'))"
              by (elim exE conjE) 
            then have "?goal ?n3 sv" using q3
              by (simp add: pauses_pausefree)
            then show ?thesis by blast
          next
            case links: False
            let ?s2 = "emit ?n2 s"
            from assms started Outline inc opens links
            obtain res s3 where cl: "courseLoop w ?name (courseLinks (siteOf w ?url)) [] ?s2 = Some (res, s3)"
              by (cases "courseLoop w ?name (courseLinks (siteOf w ?url)) [] ?s2")
                 (auto simp: processCompany_def Let_def)
            from courseLoop_pauses [OF cl] obtain d where d: "s3 = emit d ?s2" "appended d = []"
              "\<forall>post. pausesBeforeCourse (d @ post) = pausesBeforeCourse post" by blast
            have pre: "appended (?n2 @ d) = []"
              "\<forall>post. pausesBeforeCourse ((?n2 @ d) @ post) = pausesBeforeCourse post"
              using d by (simp_all add: pauses_pausefree)
            have s3: "s3 = emit (?n2 @ d) s" using d(1) by simp
            show ?thesis
            proof (cases res)
              case None
              with assms started Outline inc opens links cl have "s' = s3 \<and> ctl = Continue"
                by (simp add: processCompany_def Let_def)
              then have "?goal (?n2 @ d) []" using pre s3 links by simp
              then show ?thesis by blast
            next
              case (Some cs)
              with assms started Outline inc opens links cl
              have "persistCourses w config ?name ?meta ?is cs s3 = (ctl, s')"
                by (simp add: processCompany_def Let_def)
              from persistCourses_effect' [OF this] obtain sv where "trace s' = trace s3 @ sv"
                "(sv = [] \<and> addedCompanyCount s' = addedCompanyCount s3 \<and>
                   (ctl = Break \<longrightarrow> capReached ?cap s3)) \<or>
                 (oneSave sv \<and> addedCompanyCount s' = addedCompanyCount s3 + 1 \<and>
                   (ctl = Break \<longleftrightarrow> capReached ?cap s'))" by blast
              then have "?goal (?n2 @ d) sv" using pre s3 links
                by simp
              then show ?thesis by blast
            qed
          qed
        qed
      qed
    qed
  qed
qed

lemma oneSave_quiet:
  "oneSave sv \<Longrightarrow> PauseSleep \<notin> set sv"
  by (auto simp: oneSave_def)

subsection \<open>Pagination\<close>

lemma advance_cases:
  "advance w lastPage i s = r \<Longrightarrow>
   (case r of
      Next i' s' \<Rightarrow> i' = i + 1 \<and> s' = emit [Delay DELAY_MS, ClickNext] s \<and>
         (\<exists>cls. nextPage (searchPageAt w i) = Button cls \<and> \<not> nextDisabled cls)
    | Done l s' \<Rightarrow> l = lastPage \<and> s' = s \<and>
         (nextPage (searchPageAt w i) = NoButton \<or>
          (\<exists>cls. nextPage (searchPageAt w i) = Button cls \<and> nextDisabled cls)))"
  by (cases "nextPage (searchPageAt w i)") (auto simp: advance_def)

lemma advance_shape:
  assumes adv: "advance w i i s3 = r"
    and top: "\<not> shouldStop w s" "\<not> capReached cap s"
    and after: "start \<le> i \<longrightarrow> \<not> shouldStop w s3 \<and> \<not> capReached cap s3"
  shows "case r of
      Next i' s' \<Rightarrow> i' = i + 1 \<and>
         (\<exists>cls. nextPage (searchPageAt w i) = Button cls \<and> \<not> nextDisabled cls) \<and>
         (\<exists>s3. s' = emit [Delay DELAY_MS, ClickNext] s3 \<and> \<not> shouldStop w s \<and>
            \<not> capReached cap s \<and>
            (start \<le> i \<longrightarrow> \<not> shouldStop w s3 \<and> \<not> capReached cap s3))
    | Done lastPage s' \<Rightarrow> lastPage = i \<and>
         (shouldStop w s' \<or> capReached cap s' \<or>
          nextPage (searchPageAt w i) = NoButton \<or>
          (\<exists>cls. nextPage (searchPageAt w i) = Button cls \<and> nextDisabled cls))"
proof (cases r)
  case (Done l sd)
  with advance_cases [OF adv] show ?thesis by simp
next
  case (Next i' sn)
  with advance_cases [OF adv] have f: "i' = i + 1" "sn = emit [Delay DELAY_MS, ClickNext] s3"
    "\<exists>cls. nextPage (searchPageAt w i) = Button cls \<and> \<not> nextDisabled cls" by simp_all
  have "\<exists>s3. sn = emit [Delay DELAY_MS, ClickNext] s3 \<and> \<not> shouldStop w s \<and>
            \<not> capReached cap s \<and>
            (start \<le> i \<longrightarrow> \<not> shouldStop w s3 \<and> \<not> capReached cap s3)"
    using f(2) top after by (intro exI [of _ s3]) blast
  with f Next show ?thesis by simp
qed

lemma pageStep_cases:
  assumes "pageStep w config i s = Some r"
  shows "case r of
      Next i' s' \<Rightarrow> i' = i + 1 \<and>
         (\<exists>cls. nextPage (searchPageAt w i) = Button cls \<and> \<not> nextDisabled cls) \<and>
         (\<exists>s3. s' = emit [Delay DELAY_MS, ClickNext] s3 \<and> \<not> shouldStop w s \<and>
            \<not> capReached (MAX_COMPANIES config) s \<and>
            (START_PAGE config \<le> i \<longrightarrow> \<not> shouldStop w s3 \<and> \<not> capReached (MAX_COMPANIES config) s3))
    | Done lastPage s' \<Rightarrow> lastPage = i \<and>
         (shouldStop w s' \<or> capReached (MAX_COMPANIES config) s' \<or>
          nextPage (searchPageAt w i) = NoButton \<or>
          (\<exists>cls. nextPage (searchPageAt w i) = Button cls \<and> nextDisabled cls))"
proof (cases "shouldStop w s \<or> capReached (MAX_COMPANIES config) s")
  case True
  with assms have "r = Done i s" by (auto simp: pageStep_def Let_def split: if_splits)
  with True show ?thesis by auto
next
  case top: False
  with assms obtain s1 where w1: "waitIfPaused w s = Some s1"
    by (cases "waitIfPaused w s") (auto simp: pageStep_def Let_def split: if_splits)
  show ?thesis
  proof (cases "START_PAGE config \<le> i")
    case False
    with assms top w1 have "advance w i i s1 = r" by (auto simp: pageStep_def Let_def split: if_splits)
    from advance_shape [OF this, of s "MAX_COMPANIES config" "START_PAGE config"] top False
    show ?thesis by simp
  next
    case True
    with assms top w1 obtain s2 where
      "companyLoop w config (companyData (searchPageAt w i)) (emit [OpenDetailPage] s1) = Some s2"
      by (cases "companyLoop w config (companyData (searchPageAt w i)) (emit [OpenDetailPage] s1)")
         (auto simp: pageStep_def Let_def split: if_splits)
    note c = this
    let ?s3 = "emit [CloseDetailPage] s2"
    show ?thesis
    proof (cases "shouldStop w ?s3 \<or> capReached (MAX_COMPANIES config) ?s3")
      case True
      with assms top w1 c \<open>START_PAGE config \<le> i\<close> have "r = Done i ?s3"
        by (auto simp: pageStep_def Let_def split: if_splits)
      with True show ?thesis by auto
    next
      case False
      with assms top w1 c \<open>START_PAGE config \<le> i\<close> have "advance w i i ?s3 = r"
        by (auto simp: pageStep_def Let_def split: if_splits)
      from advance_shape [OF this, of s "MAX_COMPANIES config" "START_PAGE config"] top False
      show ?thesis by simp
    qed
  qed
qed

lemma pageLoop_ends_with_Done:
  "pageLoop w config i s = Some y \<Longrightarrow>
   \<exists>j sj. i \<le> j \<and> pageStep w config j sj = Some (Done (fst y) (snd y)) \<and> fst y = j"
proof (induction rule: pageLoop.raw_induct [rotated 1, consumes 1])
  case (1 loop w config i s y)
  then obtain res where st: "pageStep w config i s = Some res"
    by (cases "pageStep w config i s") auto
  show ?case
  proof (cases res)
    case (Done l sd)
    with 1(2) st have y: "y = (l, sd)" by simp
    from pageStep_cases [OF st] Done have "l = i" by simp
    with st Done y have "i \<le> i \<and> pageStep w config i s = Some (Done (fst y) (snd y)) \<and> fst y = i"
      by simp
    then show ?thesis by blast
  next
    case (Next i' sn)
    with 1(2) st have "loop w config i' sn = Some y" by simp
    from 1(1) [OF this] obtain j sj where
      j: "i' \<le> j" "pageStep w config j sj = Some (Done (fst y) (snd y))" "fst y = j" by blast
    from pageStep_cases [OF st] Next have "i' = i + 1" by simp
    with j have "i \<le> j" by simp
    with j show ?thesis by blast
  qed
qed

lemma pageLoop_upTo:
  "pageLoopUpTo n w config i s = Some (Finished l, s') \<Longrightarrow> pageLoop w config i s = Some (l, s')"
proof (induction n arbitrary: i s)
  case 0
  then show ?case by simp
next
  case (Suc n)
  then obtain res where st: "pageStep w config i s = Some res"
    by (cases "pageStep w config i s") auto
  show ?case
  proof (cases res)
    case (Done l' sd)
    with Suc.prems st show ?thesis by (subst pageLoop.simps) simp
  next
    case (Next i' sn)
    with Suc.prems st have "pageLoopUpTo n w config i' sn = Some (Finished l, s')" by simp
    from Suc.IH [OF this] st Next show ?thesis by (subst pageLoop.simps) simp
  qed
qed


subsection \<open>The loops return when every pause ends\<close>

lemma waitIfPaused_returns_after:
  "\<not> isPausedAt w (length (trace s) + n) \<or> shouldStopAt w (length (trace s) + n) \<Longrightarrow>
   \<exists>s1. waitIfPaused w s = Some s1"
proof (induction n arbitrary: s)
  case 0
  then have "\<not> (isPaused w s \<and> \<not> shouldStop w s)" by (simp add: isPaused_def shouldStop_def)
  then have "waitIfPaused w s = Some s" by (subst waitIfPaused.simps) auto
  then show ?case by blast
next
  case (Suc n)
  show ?case
  proof (cases "isPaused w s \<and> \<not> shouldStop w s")
    case True
    then have eq: "waitIfPaused w s = waitIfPaused w (emit [PauseSleep] s)"
      by (simp add: waitIfPaused_paused)
    from Suc.prems
    have "\<not> isPausedAt w (length (trace (emit [PauseSleep] s)) + n) \<or>
          shouldStopAt w (length (trace (emit [PauseSleep] s)) + n)" by simp
    from Suc.IH [OF this] eq show ?thesis by simp
  next
    case False
    then have "waitIfPaused w s = Some s" by (subst waitIfPaused.simps) auto
    then show ?thesis by blast
  qed
qed

lemma waitIfPaused_returns:
  assumes "\<forall>t. \<exists>n. \<not> isPausedAt w (t + n) \<or> shouldStopAt w (t + n)"
  shows "\<exists>s1. waitIfPaused w s = Some s1"
proof -
  from assms obtain n where
    "\<not> isPausedAt w (length (trace s) + n) \<or> shouldStopAt w (length (trace s) + n)" by blast
  then show ?thesis by (rule waitIfPaused_returns_after)
qed

lemma courseLoop_returns:
  assumes "\<forall>t. \<exists>n. \<not> isPausedAt w (t + n) \<or> shouldStopAt w (t + n)"
  shows "\<exists>r. courseLoop w name links acc s = Some r"
proof (induction links arbitrary: acc s)
  case Nil
  show ?case by simp
next
  case (Cons u links)
  from waitIfPaused_returns [OF assms] obtain s1 where w1: "waitIfPaused w s = Some s1" by blast
  let ?s2 = "emit [Delay DELAY_MS, ExtractTable u] s1"
  show ?case
  proof (cases "shouldStop w s")
    case True
    then show ?thesis by simp
  next
    case False
    show ?thesis
    proof (cases "tableAt w u")
      case TableThrows
      with False w1 show ?thesis by (simp add: Let_def)
    next
      case TableMissing
      with False w1 Cons.IH [of acc ?s2] show ?thesis by (simp add: Let_def)
    next
      case (TableFound c)
      with False w1 Cons.IH [of "acc @ [c\<lparr>courseCompanyName := name\<rparr>]" ?s2] show ?thesis
        by (simp add: Let_def)
    qed
  qed
qed

lemma processCompany_returns:
  assumes "\<forall>t. \<exists>n. \<not> isPausedAt w (t + n) \<or> shouldStopAt w (t + n)"
  shows "\<exists>r. processCompany w config link s = Some r"
proof -
  have "\<exists>r. courseLoop w name links [] s2 = Some r" for name links s2
    by (rule courseLoop_returns [OF assms])
  then have c: "courseLoop w name links [] s2 \<noteq> None" for name links s2 by simp
  show ?thesis
    by (auto simp: processCompany_def Let_def c
        split: outlineResult.splits tableResult.splits option.splits prod.splits bool.splits)
qed

lemma companyLoop_returns:
  assumes "\<forall>t. \<exists>n. \<not> isPausedAt w (t + n) \<or> shouldStopAt w (t + n)"
  shows "\<exists>s'. companyLoop w config links s = Some s'"
proof (induction links arbitrary: s)
  case Nil
  show ?case by simp
next
  case (Cons link rest)
  from waitIfPaused_returns [OF assms] obtain s1 where w1: "waitIfPaused w s = Some s1" by blast
  from processCompany_returns [OF assms] obtain ctl s2 where
    p: "processCompany w config link s1 = Some (ctl, s2)" by fastforce
  from Cons.IH [of s2] w1 p show ?case by (cases ctl) auto
qed

lemma pageStep_returns:
  assumes "\<forall>t. \<exists>n. \<not> isPausedAt w (t + n) \<or> shouldStopAt w (t + n)"
  shows "\<exists>r. pageStep w config i s = Some r"
proof -
  from waitIfPaused_returns [OF assms] obtain s1 where w1: "waitIfPaused w s = Some s1" by blast
  from companyLoop_returns [OF assms] obtain s2 where
    "companyLoop w config (companyData (searchPageAt w i)) (emit [OpenDetailPage] s1) = Some s2"
    by blast
  with w1 show ?thesis by (simp add: pageStep_def Let_def)
qed

lemma pageStep_last:
  assumes "\<forall>t. \<exists>n. \<not> isPausedAt w (t + n) \<or> shouldStopAt w (t + n)"
    and "nextPage (searchPageAt w i) = NoButton \<or>
         (\<exists>cls. nextPage (searchPageAt w i) = Button cls \<and> nextDisabled cls)"
  shows "\<exists>s'. pageStep w config i s = Some (Done i s')"
proof -
  from pageStep_returns [OF assms(1)] obtain r where r: "pageStep w config i s = Some r" by blast
  show ?thesis
  proof (cases r)
    case (Done l sd)
    with pageStep_cases [OF r] r show ?thesis by simp
  next
    case (Next i' sn)
    with pageStep_cases [OF r] assms(2) show ?thesis by auto
  qed
qed

lemma pageLoop_returns:
  assumes ends: "\<forall>t. \<exists>n. \<not> isPausedAt w (t + n) \<or> shouldStopAt w (t + n)"
    and lastPage: "nextPage (searchPageAt w j) = NoButton \<or>
         (\<exists>cls. nextPage (searchPageAt w j) = Button cls \<and> nextDisabled cls)"
  shows "i \<le> j \<Longrightarrow> \<exists>l s'. pageLoop w config i s = Some (l, s') \<and> i \<le> l \<and> l \<le> j"
proof (induction "j - i" arbitrary: i s)
  case 0
  then have "i = j" by simp
  with pageStep_last [OF ends lastPage, of config s] obtain s' where
    "pageStep w config i s = Some (Done i s')" by blast
  then have "pageLoop w config i s = Some (i, s')" by (subst pageLoop.simps) simp
  with \<open>i = j\<close> show ?case by simp
next
  case (Suc k)
  from pageStep_returns [OF ends] obtain r where r: "pageStep w config i s = Some r" by blast
  show ?case
  proof (cases r)
    case (Done l sd)
    with pageStep_cases [OF r] have "l = i" by simp
    with r Done have "pageLoop w config i s = Some (i, sd)" by (subst pageLoop.simps) simp
    with Suc.prems show ?thesis by simp
  next
    case (Next i' sn)
    with pageStep_cases [OF r] have i': "i' = i + 1" by simp
    from Suc.hyps(2) have "k = j - i'" "i' \<le> j" using i' by simp_all
    from Suc.hyps(1) [OF this, of sn] obtain l s' where
      "pageLoop w config i' sn = Some (l, s')" "i' \<le> l" "l \<le> j" by blast
    with r Next i' have "pageLoop w config i s = Some (l, s') \<and> i \<le> l \<and> l \<le> j"
      by (subst pageLoop.simps) simp
    then show ?thesis by blast
  qed
qed

lemma pageLoop_runs_on:
  assumes never: "\<forall>t. \<not> shouldStopAt w t" and nocap: "MAX_COMPANIES config = None"
    and buttons: "\<forall>j \<ge> i. \<exists>cls. nextPage (searchPageAt w j) = Button cls \<and> \<not> nextDisabled cls"
  shows "pageLoop w config i s = None"
proof (cases "pageLoop w config i s")
  case None
  then show ?thesis .
next
  case (Some y)
  from pageLoop_ends_with_Done [OF Some] obtain j sj where
    j: "i \<le> j" "pageStep w config j sj = Some (Done (fst y) (snd y))" by blast
  from pageStep_cases [OF j(2)] never nocap
  have "nextPage (searchPageAt w j) = NoButton \<or>
        (\<exists>cls. nextPage (searchPageAt w j) = Button cls \<and> nextDisabled cls)"
    by (simp add: shouldStop_def capReached_def)
  with buttons j(1) show ?thesis by fastforce
qed

text \<open>
  Claim C4. One turn of the page loop goes on to the next page only if the stop flag and
  the cap did not fire and the next-page button is present and not marked disabled; then
  the page index grows by one and the trace ends with the fixed delay followed by the
  click. Otherwise the turn ends the loop and reports the index of the page it was on;
  this happens only if the stop flag or the cap fired or the button is absent or disabled.
  Whenever the loop returns, it returns from such a final turn, with the index of that
  page as the reported last page. When every pause of the operator ends, each turn
  returns, a turn on a page whose button is absent or disabled ends the loop there, and
  the loop returns at the latest on the first such page. With no stop, no cap and an
  enabled button on every page, the loop never returns.
\<close>

theorem pagination_advance:
  "(\<forall>r. pageStep w config i s = Some r \<longrightarrow>
      (case r of
         Next i' s' \<Rightarrow> i' = i + 1 \<and>
           (\<exists>cls. nextPage (searchPageAt w i) = Button cls \<and> \<not> nextDisabled cls) \<and>
           (\<exists>s3. s' = emit [Delay DELAY_MS, ClickNext] s3 \<and> \<not> shouldStop w s \<and>
              \<not> capReached (MAX_COMPANIES config) s \<and>
              (START_PAGE config \<le> i \<longrightarrow>
                 \<not> shouldStop w s3 \<and> \<not> capReached (MAX_COMPANIES config) s3))
       | Done lastPage s' \<Rightarrow> lastPage = i \<and>
           (shouldStop w s' \<or> capReached (MAX_COMPANIES config) s' \<or>
            nextPage (searchPageAt w i) = NoButton \<or>
            (\<exists>cls. nextPage (searchPageAt w i) = Button cls \<and> nextDisabled cls)))) \<and>
   (\<forall>lastPage s'. pageLoop w config i s = Some (lastPage, s') \<longrightarrow>
      (\<exists>j sj. i \<le> j \<and> pageStep w config j sj = Some (Done lastPage s') \<and> lastPage = j)) \<and>
   ((\<forall>t. \<exists>n. \<not> isPausedAt w (t + n) \<or> shouldStopAt w (t + n)) \<longrightarrow>
      (\<exists>r. pageStep w config i s = Some r) \<and>
      (nextPage (searchPageAt w i) = NoButton \<or>
       (\<exists>cls. nextPage (searchPageAt w i) = Button cls \<and> nextDisabled cls) \<longrightarrow>
         (\<exists>s'. pageStep w config i s = Some (Done i s'))) \<and>
      (\<forall>j. i \<le> j \<and>
            (nextPage (searchPageAt w j) = NoButton \<or>
             (\<exists>cls. nextPage (searchPageAt w j) = Button cls \<and> nextDisabled cls)) \<longrightarrow>
         (\<exists>lastPage s'. pageLoop w config i s = Some (lastPage, s') \<and>
            i \<le> lastPage \<and> lastPage \<le> j))) \<and>
   ((\<forall>t. \<not> shouldStopAt w t) \<and> MAX_COMPANIES config = None \<and>
    (\<forall>j. i \<le> j \<longrightarrow> (\<exists>cls. nextPage (searchPageAt w j) = Button cls \<and> \<not> nextDisabled cls)) \<longrightarrow>
      pageLoop w config i s = None)"
proof (intro conjI allI impI)
  fix r assume "pageStep w config i s = Some r"
  then show "case r of
         Next i' s' \<Rightarrow> i' = i + 1 \<and>
           (\<exists>cls. nextPage (searchPageAt w i) = Button cls \<and> \<not> nextDisabled cls) \<and>
           (\<exists>s3. s' = emit [Delay DELAY_MS, ClickNext] s3 \<and> \<not> shouldStop w s \<and>
              \<not> capReached (MAX_COMPANIES config) s \<and>
              (START_PAGE config \<le> i \<longrightarrow>
                 \<not> shouldStop w s3 \<and> \<not> capReached (MAX_COMPANIES config) s3))
       | Done lastPage s' \<Rightarrow> lastPage = i \<and>
           (shouldStop w s' \<or> capReached (MAX_COMPANIES config) s' \<or>
            nextPage (searchPageAt w i) = NoButton \<or>
            (\<exists>cls. nextPage (searchPageAt w i) = Button cls \<and> nextDisabled cls))"
    by (rule pageStep_cases)
next
  fix lastPage s' assume "pageLoop w config i s = Some (lastPage, s')"
  from pageLoop_ends_with_Done [OF this]
  show "\<exists>j sj. i \<le> j \<and> pageStep w config j sj = Some (Done lastPage s') \<and> lastPage = j"
    by simp
next
  assume "\<forall>t. \<exists>n. \<not> isPausedAt w (t + n) \<or> shouldStopAt w (t + n)"
  then show "\<exists>r. pageStep w config i s = Some r" by (rule pageStep_returns)
next
  assume "\<forall>t. \<exists>n. \<not> isPausedAt w (t + n) \<or> shouldStopAt w (t + n)"
    and "nextPage (searchPageAt w i) = NoButton \<or>
       (\<exists>cls. nextPage (searchPageAt w i) = Button cls \<and> nextDisabled cls)"
  then show "\<exists>s'. pageStep w config i s = Some (Done i s')" by (rule pageStep_last)
next
  fix j
  assume ends: "\<forall>t. \<exists>n. \<not> isPausedAt w (t + n) \<or> shouldStopAt w (t + n)"
    and j: "i \<le> j \<and>
            (nextPage (searchPageAt w j) = NoButton \<or>
             (\<exists>cls. nextPage (searchPageAt w j) = Button cls \<and> nextDisabled cls))"
  from j have "i \<le> j" and lastPage: "nextPage (searchPageAt w j) = NoButton \<or>
             (\<exists>cls. nextPage (searchPageAt w j) = Button cls \<and> nextDisabled cls)" by simp_all
  from pageLoop_returns [OF ends lastPage \<open>i \<le> j\<close>]
  show "\<exists>lastPage s'. pageLoop w config i s = Some (lastPage, s') \<and> i \<le> lastPage \<and> lastPage \<le> j" .
next
  assume a: "(\<forall>t. \<not> shouldStopAt w t) \<and> MAX_COMPANIES config = None \<and>
    (\<forall>j. i \<le> j \<longrightarrow> (\<exists>cls. nextPage (searchPageAt w j) = Button cls \<and> \<not> nextDisabled cls))"
  then show "pageLoop w config i s = None" by (intro pageLoop_runs_on) simp_all
qed

lemma pagesWorld_quiet [simp]:
  "\<not> shouldStop pagesWorld s" "waitIfPaused pagesWorld s = Some s"
  by (simp_all add: shouldStop_def isPaused_def pagesWorld_def exampleWorld_def waitIfPaused_not_paused)

lemma pagesWorld_buttons:
  "nextPage (searchPageAt pagesWorld (Suc 0)) = Button (Some (ascii ''next''))"
  "nextPage (searchPageAt pagesWorld (Suc (Suc 0))) = Button (Some (ascii ''next disabled''))"
  "companyData (searchPageAt pagesWorld i) = []"
  "\<not> nextDisabled (Some (ascii ''next''))"
  "nextDisabled (Some (ascii ''next disabled''))"
  by (simp_all add: pagesWorld_def nextDisabled_def ascii_def)

lemma pagesWorld_run:
  "pageLoopUpTo (Suc (Suc 0)) pagesWorld (exampleConfig None) 1 (startOfRun {} []) =
     Some (Finished 2,
           emit [OpenDetailPage, CloseDetailPage, Delay DELAY_MS, ClickNext,
                 OpenDetailPage, CloseDetailPage] (startOfRun {} []))"
  by (simp add: pageStep_def advance_def pagesWorld_buttons exampleConfig_def defaultConfig_def
      capReached_def Let_def)

theorem pagination_advance_witness:
  "pageLoop pagesWorld (exampleConfig None) 1 (startOfRun {} []) =
     Some (2, emit [OpenDetailPage, CloseDetailPage, Delay DELAY_MS, ClickNext,
                    OpenDetailPage, CloseDetailPage] (startOfRun {} [])) \<and>
   (\<exists>j sj. 1 \<le> j \<and>
      pageStep pagesWorld (exampleConfig None) j sj =
        Some (Done 2 (emit [OpenDetailPage, CloseDetailPage, Delay DELAY_MS, ClickNext,
                            OpenDetailPage, CloseDetailPage] (startOfRun {} []))) \<and>
      2 = j) \<and>
   (\<exists>lastPage s'. pageLoop pagesWorld (exampleConfig None) 1 (startOfRun {} []) = Some (lastPage, s') \<and>
      1 \<le> lastPage \<and> lastPage \<le> 2) \<and>
   pageLoop endlessWorld (exampleConfig None) 1 (startOfRun {} []) = None"
proof -
  note run = pageLoop_upTo [OF pagesWorld_run]
  note t = pagination_advance [of pagesWorld "exampleConfig None" 1 "startOfRun {} []"]
  from t [THEN conjunct2, THEN conjunct1, rule_format, OF run]
  have final: "\<exists>j sj. 1 \<le> j \<and>
      pageStep pagesWorld (exampleConfig None) j sj =
        Some (Done 2 (emit [OpenDetailPage, CloseDetailPage, Delay DELAY_MS, ClickNext,
                            OpenDetailPage, CloseDetailPage] (startOfRun {} []))) \<and>
      2 = j" by blast
  have ends: "\<forall>t. \<exists>n. \<not> isPausedAt pagesWorld (t + n) \<or> shouldStopAt pagesWorld (t + n)"
    by (simp add: pagesWorld_def exampleWorld_def)
  have two: "(1::nat) \<le> 2 \<and>
            (nextPage (searchPageAt pagesWorld 2) = NoButton \<or>
             (\<exists>cls. nextPage (searchPageAt pagesWorld 2) = Button cls \<and> nextDisabled cls))"
    by (simp add: pagesWorld_def nextDisabled_def ascii_def)
  from t [THEN conjunct2, THEN conjunct2, THEN conjunct1, THEN mp, OF ends,
      THEN conjunct2, THEN conjunct2, rule_format, OF two]
  have returns: "\<exists>lastPage s'. pageLoop pagesWorld (exampleConfig None) 1 (startOfRun {} []) =
      Some (lastPage, s') \<and> 1 \<le> lastPage \<and> lastPage \<le> 2" .
  have endless: "(\<forall>t. \<not> shouldStopAt endlessWorld t) \<and> MAX_COMPANIES (exampleConfig None) = None \<and>
    (\<forall>j. 1 \<le> j \<longrightarrow> (\<exists>cls. nextPage (searchPageAt endlessWorld j) = Button cls \<and> \<not> nextDisabled cls))"
    by (simp add: endlessWorld_def exampleWorld_def exampleConfig_def nextDisabled_def ascii_def)
  from pagination_advance [of endlessWorld "exampleConfig None" 1 "startOfRun {} []",
      THEN conjunct2, THEN conjunct2, THEN conjunct2, THEN mp, OF endless]
  have "pageLoop endlessWorld (exampleConfig None) 1 (startOfRun {} []) = None" .
  with run final returns show ?thesis by blast
qed


section \<open>The cap on the companies added\<close>

subsection \<open>The cap does not change what is done for a company\<close>

lemma snd_counted [simp]:
  "snd (counted cap s) = s\<lparr>addedCompanyCount := addedCompanyCount s + 1\<rparr>"
  by (simp add: counted_def Let_def)

lemma snd_persistCourses_cap:
  "snd (persistCourses w (config\<lparr>MAX_COMPANIES := cap\<rparr>) name meta u cs s) =
   snd (persistCourses w config name meta u cs s)"
proof (cases "cs = []")
  case True
  then show ?thesis
    by (cases "saveRecordIfNew w config (noTableRecord name meta u) s")
       (auto simp: persistCourses_def saveRecordIfNew_config split: bool.splits)
next
  case False
  then obtain b where "bestCourse cs = Some b" using bestCourse_first_max [of cs] by auto
  with False show ?thesis
    by (cases "saveRecordIfNew w config (courseRecord name meta b) s")
       (auto simp: persistCourses_def saveRecordIfNew_config split: bool.splits)
qed

lemma snd_noCourse_cap:
  "map_option snd
     (case saveRecordIfNew w (config\<lparr>MAX_COMPANIES := cap\<rparr>) r s of
        (True, s4) \<Rightarrow> Some (Continue, s4)
      | (False, s4) \<Rightarrow> Some (counted (MAX_COMPANIES (config\<lparr>MAX_COMPANIES := cap\<rparr>)) s4)) =
   map_option snd
     (case saveRecordIfNew w config r s of
        (True, s4) \<Rightarrow> Some (Continue, s4)
      | (False, s4) \<Rightarrow> Some (counted (MAX_COMPANIES config) s4))"
  by (cases "saveRecordIfNew w config r s")
     (auto simp: saveRecordIfNew_config split: bool.splits)

lemma processCompany_cap:
  "map_option snd (processCompany w (config\<lparr>MAX_COMPANIES := cap\<rparr>) link s) =
   map_option snd (processCompany w config link s)"
proof -
  let ?c = "config\<lparr>MAX_COMPANIES := cap\<rparr>"
  let ?name = "fst link" and ?url = "snd link"
  show ?thesis
  proof (cases "?name = [] \<or> checkCompanyExists ?name (existingCompanies s)")
    case True
    then show ?thesis by (auto simp: processCompany_def Let_def)
  next
    case started: False
    show ?thesis
    proof (cases "outline (siteOf w ?url)")
      case OutlineThrows
      with started show ?thesis by (simp add: processCompany_def Let_def)
    next
      case (Outline raw currentUrl)
      let ?meta = "extractCompanyMetaFromOutline raw"
      let ?is = "replaceFirst currentUrl (ascii ''outline'') (ascii ''is'')"
      show ?thesis
      proof (cases "includesStr currentUrl (ascii ''outline'') \<and> isPageOpens (siteOf w ?url)")
        case False
        with started Outline show ?thesis by (auto simp: processCompany_def Let_def)
      next
        case ok: True
        show ?thesis
        proof (cases "courseLinks (siteOf w ?url) = []")
          case True
          with started Outline ok show ?thesis
            using snd_noCourse_cap [where w = w and config = config and cap = cap
                and r = "noCourseRecord ?name ?meta ?is"]
            by (cases "tableAt w ?is")
               (simp_all add: processCompany_def Let_def snd_persistCourses_cap)
        next
          case False
          with started Outline ok show ?thesis
            by (simp add: processCompany_def Let_def snd_persistCourses_cap
                split: option.splits prod.splits)
        qed
      qed
    qed
  qed
qed

subsection \<open>A run only grows\<close>

lemma grows_refl [simp]: "grows s s"
  by (simp add: grows_def)

lemma grows_trans: "grows a b \<Longrightarrow> grows b c \<Longrightarrow> grows a c"
  by (auto simp: grows_def)

lemma grows_emit: "appended es = [] \<Longrightarrow> grows s (emit es s)"
  by (simp add: grows_def)

lemma grows_count: "grows s s' \<Longrightarrow> addedCompanyCount s \<le> addedCompanyCount s'"
  by (auto simp: grows_def)

lemma grows_appended: "grows s s' \<Longrightarrow> prefix (appended (trace s)) (appended (trace s'))"
  by (auto simp: grows_def)

lemma waitIfPaused_grows:
  "waitIfPaused w s = Some s1 \<Longrightarrow> grows s s1 \<and> addedCompanyCount s1 = addedCompanyCount s"
  using waitIfPaused_Some [of w s s1] by (auto simp: grows_emit)

lemma oneSave_appended: "oneSave sv \<Longrightarrow> length (appended sv) = 1"
  by (auto simp: oneSave_def)

lemma processCompany_grows:
  assumes "processCompany w config link s = Some (ctl, s')"
  shows "grows s s'" and "addedCompanyCount s' \<le> addedCompanyCount s + 1"
    and "\<not> capReached (MAX_COMPANIES config) s \<Longrightarrow>
           (ctl = Break \<longleftrightarrow> capReached (MAX_COMPANIES config) s')"
proof -
  from processCompany_effect [OF assms] obtain pre sv where
    tr: "trace s' = trace s @ pre @ sv" and ap: "appended pre = []"
    and sv: "(sv = [] \<and> addedCompanyCount s' = addedCompanyCount s \<and>
               (ctl = Break \<longrightarrow> capReached (MAX_COMPANIES config) s)) \<or>
            (oneSave sv \<and> addedCompanyCount s' = addedCompanyCount s + 1 \<and>
               (ctl = Break \<longleftrightarrow> capReached (MAX_COMPANIES config) s'))" by blast
  from sv have cnt: "addedCompanyCount s' = addedCompanyCount s + length (appended (pre @ sv))"
    using ap oneSave_appended by auto
  with tr show "grows s s'" unfolding grows_def by (intro exI [of _ "pre @ sv"]) simp
  from sv show "addedCompanyCount s' \<le> addedCompanyCount s + 1" by auto
  assume n: "\<not> capReached (MAX_COMPANIES config) s"
  from sv show "ctl = Break \<longleftrightarrow> capReached (MAX_COMPANIES config) s'"
  proof
    assume a: "sv = [] \<and> addedCompanyCount s' = addedCompanyCount s \<and>
               (ctl = Break \<longrightarrow> capReached (MAX_COMPANIES config) s)"
    then have "capReached (MAX_COMPANIES config) s' = capReached (MAX_COMPANIES config) s"
      by (intro capReached_count) simp
    with a n show ?thesis by simp
  next
    assume "oneSave sv \<and> addedCompanyCount s' = addedCompanyCount s + 1 \<and>
               (ctl = Break \<longleftrightarrow> capReached (MAX_COMPANIES config) s')"
    then show ?thesis by simp
  qed
qed

lemma companyLoop_grows:
  "companyLoop w config links s = Some s' \<Longrightarrow> grows s s'"
proof (induction links arbitrary: s)
  case Nil
  then show ?case by simp
next
  case (Cons link rest)
  show ?case
  proof (cases "shouldStop w s \<or> capReached (MAX_COMPANIES config) s")
    case True
    with Cons.prems have "s' = s" by (auto split: if_splits)
    then show ?thesis by simp
  next
    case False
    with Cons.prems obtain s1 where w1: "waitIfPaused w s = Some s1"
      by (cases "waitIfPaused w s") auto
    with Cons.prems False obtain ctl s2 where p: "processCompany w config link s1 = Some (ctl, s2)"
      by (cases "processCompany w config link s1") auto
    from waitIfPaused_grows [OF w1] processCompany_grows(1) [OF p]
    have g: "grows s s2" using grows_trans by blast
    show ?thesis
    proof (cases ctl)
      case Break
      with Cons.prems False w1 p have "s' = s2" by simp
      with g show ?thesis by simp
    next
      case Continue
      with Cons.prems False w1 p have "companyLoop w config rest s2 = Some s'" by simp
      from Cons.IH [OF this] g show ?thesis using grows_trans by blast
    qed
  qed
qed

lemma advance_grows: "grows s (stateOf (advance w l i s))"
  by (cases "nextPage (searchPageAt w i)") (auto simp: advance_def grows_emit)

lemma pageStep_grows:
  assumes "pageStep w config i s = Some r"
  shows "grows s (stateOf r)"
proof (cases "shouldStop w s \<or> capReached (MAX_COMPANIES config) s")
  case True
  with assms have "r = Done i s" by (auto simp: pageStep_def Let_def split: if_splits)
  then show ?thesis by simp
next
  case top: False
  with assms obtain s1 where w1: "waitIfPaused w s = Some s1"
    by (cases "waitIfPaused w s") (auto simp: pageStep_def Let_def split: if_splits)
  note g1 = waitIfPaused_grows [OF w1, THEN conjunct1]
  show ?thesis
  proof (cases "START_PAGE config \<le> i")
    case False
    with assms top w1 have "r = advance w i i s1" by (auto simp: pageStep_def Let_def split: if_splits)
    with g1 advance_grows [of s1 w i i] show ?thesis using grows_trans by blast
  next
    case True
    with assms top w1 obtain s2 where
      c: "companyLoop w config (companyData (searchPageAt w i)) (emit [OpenDetailPage] s1) = Some s2"
      by (cases "companyLoop w config (companyData (searchPageAt w i)) (emit [OpenDetailPage] s1)")
         (auto simp: pageStep_def Let_def split: if_splits)
    let ?s3 = "emit [CloseDetailPage] s2"
    have "grows s1 (emit [OpenDetailPage] s1)" by (simp add: grows_emit)
    moreover note companyLoop_grows [OF c]
    moreover have "grows s2 ?s3" by (simp add: grows_emit)
    ultimately have g3: "grows s ?s3" using g1 grows_trans by blast
    from assms top w1 c True have "r = Done i ?s3 \<or> r = advance w i i ?s3"
      by (auto simp: pageStep_def Let_def split: if_splits)
    with g3 advance_grows [of ?s3 w i i] show ?thesis using grows_trans by auto
  qed
qed

lemma pageLoopUpTo_grows:
  "pageLoopUpTo n w config i s = Some (e, s') \<Longrightarrow> grows s s'"
proof (induction n arbitrary: i s)
  case 0
  then show ?case by simp
next
  case (Suc n)
  then obtain r where st: "pageStep w config i s = Some r"
    by (cases "pageStep w config i s") auto
  note g = pageStep_grows [OF st]
  show ?case
  proof (cases r)
    case (Done l sd)
    with Suc.prems st g show ?thesis by simp
  next
    case (Next i' sn)
    with Suc.prems st have "pageLoopUpTo n w config i' sn = Some (e, s')" by simp
    from Suc.IH [OF this] g Next show ?thesis using grows_trans by auto
  qed
qed

subsection \<open>A run with a cap against the run without\<close>

lemma company_step:
  assumes u: "processCompany w (config\<lparr>MAX_COMPANIES := None\<rparr>) link s = Some (ctlU, sU)"
    and lt: "addedCompanyCount s < M"
  shows "ctlU = Continue"
    and "processCompany w (config\<lparr>MAX_COMPANIES := Some M\<rparr>) link s =
           Some (if M \<le> addedCompanyCount sU then Break else Continue, sU)"
proof -
  from processCompany_grows(3) [OF u] show "ctlU = Continue"
    by (cases ctlU) (simp_all add: capReached_def)
  have "map_option snd (processCompany w (config\<lparr>MAX_COMPANIES := Some M\<rparr>) link s) =
        map_option snd (processCompany w (config\<lparr>MAX_COMPANIES := None\<rparr>) link s)"
    by (simp only: processCompany_cap)
  with u obtain ctlM where
    m: "processCompany w (config\<lparr>MAX_COMPANIES := Some M\<rparr>) link s = Some (ctlM, sU)"
    by (cases "processCompany w (config\<lparr>MAX_COMPANIES := Some M\<rparr>) link s") auto
  from processCompany_grows(3) [OF m] lt
  have "ctlM = Break \<longleftrightarrow> M \<le> addedCompanyCount sU" by (simp add: capReached_def)
  then have "ctlM = (if M \<le> addedCompanyCount sU then Break else Continue)"
    by (cases ctlM) simp_all
  with m show "processCompany w (config\<lparr>MAX_COMPANIES := Some M\<rparr>) link s =
           Some (if M \<le> addedCompanyCount sU then Break else Continue, sU)" by simp
qed

lemma companyLoop_capped:
  assumes "companyLoop w (config\<lparr>MAX_COMPANIES := None\<rparr>) links s = Some sU"
    and "addedCompanyCount s \<le> M"
  shows "\<exists>sC. companyLoop w (config\<lparr>MAX_COMPANIES := Some M\<rparr>) links s = Some sC \<and>
               grows sC sU \<and> addedCompanyCount sC \<le> M \<and> (sC = sU \<or> addedCompanyCount sC = M)"
  using assms
proof (induction links arbitrary: s)
  case Nil
  then show ?case by simp
next
  case (Cons link rest)
  show ?case
  proof (cases "shouldStop w s")
    case True
    with Cons.prems show ?thesis by simp
  next
    case run: False
    show ?thesis
    proof (cases "addedCompanyCount s = M")
      case True
      with run have "companyLoop w (config\<lparr>MAX_COMPANIES := Some M\<rparr>) (link # rest) s = Some s"
        by (simp add: capReached_def)
      with True companyLoop_grows [OF Cons.prems(1)] show ?thesis by simp
    next
      case False
      with Cons.prems have lt: "addedCompanyCount s < M" by simp
      from Cons.prems run obtain s1 where w1: "waitIfPaused w s = Some s1"
        by (cases "waitIfPaused w s") (auto simp: capReached_def)
      from waitIfPaused_grows [OF w1] lt have lt1: "addedCompanyCount s1 < M" by simp
      from Cons.prems run w1 obtain ctlU s2 where
        p: "processCompany w (config\<lparr>MAX_COMPANIES := None\<rparr>) link s1 = Some (ctlU, s2)"
        by (cases "processCompany w (config\<lparr>MAX_COMPANIES := None\<rparr>) link s1")
           (auto simp: capReached_def)
      note st = company_step [OF p lt1]
      from processCompany_grows(2) [OF p] lt1 have le2: "addedCompanyCount s2 \<le> M" by simp
      from Cons.prems run w1 p st(1)
      have rest: "companyLoop w (config\<lparr>MAX_COMPANIES := None\<rparr>) rest s2 = Some sU"
        by (simp add: capReached_def)
      show ?thesis
      proof (cases "M \<le> addedCompanyCount s2")
        case True
        with run lt w1 st(2)
        have "companyLoop w (config\<lparr>MAX_COMPANIES := Some M\<rparr>) (link # rest) s = Some s2"
          by (simp add: capReached_def)
        with True le2 companyLoop_grows [OF rest] show ?thesis by simp
      next
        case False
        with run lt w1 st(2)
        have "companyLoop w (config\<lparr>MAX_COMPANIES := Some M\<rparr>) (link # rest) s =
              companyLoop w (config\<lparr>MAX_COMPANIES := Some M\<rparr>) rest s2"
          by (simp add: capReached_def)
        with Cons.IH [OF rest le2] show ?thesis by simp
      qed
    qed
  qed
qed

lemma advance_count [simp]:
  "addedCompanyCount (stateOf (advance w l i s)) = addedCompanyCount s"
  by (cases "nextPage (searchPageAt w i)") (auto simp: advance_def emit_def)

lemma emit_count [simp]: "addedCompanyCount (emit es s) = addedCompanyCount s"
  by (simp add: emit_def)

lemma pageStep_capped:
  assumes u: "pageStep w (config\<lparr>MAX_COMPANIES := None\<rparr>) i s = Some rU"
    and le: "addedCompanyCount s \<le> M"
  shows "\<exists>rC. pageStep w (config\<lparr>MAX_COMPANIES := Some M\<rparr>) i s = Some rC \<and>
               ((rC = rU \<and> addedCompanyCount (stateOf rU) < M) \<or>
                (\<exists>sC. rC = Done i sC \<and> addedCompanyCount sC = M \<and>
                      prefix (appended (trace sC)) (appended (trace (stateOf rU)))))"
proof (cases "addedCompanyCount s = M")
  case True
  then have "pageStep w (config\<lparr>MAX_COMPANIES := Some M\<rparr>) i s = Some (Done i s)"
    by (simp add: pageStep_def capReached_def)
  with True grows_appended [OF pageStep_grows [OF u]] show ?thesis by simp
next
  case False
  with le have lt: "addedCompanyCount s < M" by simp
  show ?thesis
  proof (cases "shouldStop w s")
    case True
    with u have "rU = Done i s" by (simp add: pageStep_def)
    with True lt show ?thesis by (simp add: pageStep_def)
  next
    case run: False
    with u obtain s1 where w1: "waitIfPaused w s = Some s1"
      by (cases "waitIfPaused w s") (auto simp: pageStep_def capReached_def)
    from waitIfPaused_grows [OF w1] lt have lt1: "addedCompanyCount s1 < M" by simp
    show ?thesis
    proof (cases "START_PAGE config \<le> i")
      case False
      with u run w1 have "rU = advance w i i s1" by (simp add: pageStep_def capReached_def)
      with False run w1 lt lt1 show ?thesis by (simp add: pageStep_def capReached_def)
    next
      case True
      let ?links = "companyData (searchPageAt w i)"
      from u run w1 True obtain sU2 where
        c: "companyLoop w (config\<lparr>MAX_COMPANIES := None\<rparr>) ?links (emit [OpenDetailPage] s1) = Some sU2"
        by (cases "companyLoop w (config\<lparr>MAX_COMPANIES := None\<rparr>) ?links (emit [OpenDetailPage] s1)")
           (auto simp: pageStep_def capReached_def)
      from lt1 have "addedCompanyCount (emit [OpenDetailPage] s1) \<le> M" by simp
      from companyLoop_capped [OF c this] obtain sC2 where
        cm: "companyLoop w (config\<lparr>MAX_COMPANIES := Some M\<rparr>) ?links (emit [OpenDetailPage] s1) = Some sC2"
        and g: "grows sC2 sU2" and le2: "addedCompanyCount sC2 \<le> M"
        and same: "sC2 = sU2 \<or> addedCompanyCount sC2 = M" by blast
      let ?s3U = "emit [CloseDetailPage] sU2"
      let ?s3C = "emit [CloseDetailPage] sC2"
      from u run w1 True c have rU: "rU = Done i ?s3U \<or> rU = advance w i i ?s3U"
        by (auto simp: pageStep_def capReached_def Let_def split: if_splits)
      show ?thesis
      proof (cases "addedCompanyCount sC2 = M")
        case True
        with run lt w1 \<open>START_PAGE config \<le> i\<close> cm
        have rC: "pageStep w (config\<lparr>MAX_COMPANIES := Some M\<rparr>) i s = Some (Done i ?s3C)"
          by (simp add: pageStep_def capReached_def Let_def)
        have "grows ?s3U (stateOf rU)" using rU advance_grows [of ?s3U w i i] by auto
        from grows_appended [OF this] grows_appended [OF g]
        have "prefix (appended (trace ?s3C)) (appended (trace (stateOf rU)))" by simp
        with rC True show ?thesis by simp
      next
        case False
        with same le2 have eq: "sC2 = sU2" and lt2: "addedCompanyCount sU2 < M" by auto
        from u run lt w1 True c cm eq lt2
        have "pageStep w (config\<lparr>MAX_COMPANIES := Some M\<rparr>) i s = Some rU"
          by (auto simp: pageStep_def capReached_def Let_def split: if_splits)
        moreover from rU lt2 have "addedCompanyCount (stateOf rU) < M" by auto
        ultimately show ?thesis by simp
      qed
    qed
  qed
qed

lemma pageLoopUpTo_capped:
  assumes "pageLoopUpTo k w (config\<lparr>MAX_COMPANIES := None\<rparr>) i s = Some (e, sU)"
    and "addedCompanyCount s \<le> M" and "M < addedCompanyCount sU"
  shows "\<exists>l sC. pageLoopUpTo k w (config\<lparr>MAX_COMPANIES := Some M\<rparr>) i s = Some (Finished l, sC) \<and>
                 addedCompanyCount sC = M \<and> prefix (appended (trace sC)) (appended (trace sU))"
  using assms
proof (induction k arbitrary: i s)
  case 0
  then show ?case by simp
next
  case (Suc k)
  from Suc.prems(1) obtain rU where st: "pageStep w (config\<lparr>MAX_COMPANIES := None\<rparr>) i s = Some rU"
    by (cases "pageStep w (config\<lparr>MAX_COMPANIES := None\<rparr>) i s") auto
  have later: "grows (stateOf rU) sU"
  proof (cases rU)
    case (Done l sd)
    with Suc.prems(1) st show ?thesis by simp
  next
    case (Next i' sn)
    with Suc.prems(1) st have "pageLoopUpTo k w (config\<lparr>MAX_COMPANIES := None\<rparr>) i' sn = Some (e, sU)"
      by simp
    from pageLoopUpTo_grows [OF this] Next show ?thesis by simp
  qed
  from pageStep_capped [OF st Suc.prems(2)] obtain rC where
    stC: "pageStep w (config\<lparr>MAX_COMPANIES := Some M\<rparr>) i s = Some rC"
    and alt: "(rC = rU \<and> addedCompanyCount (stateOf rU) < M) \<or>
              (\<exists>sC. rC = Done i sC \<and> addedCompanyCount sC = M \<and>
                    prefix (appended (trace sC)) (appended (trace (stateOf rU))))" by blast
  from alt show ?case
  proof
    assume a: "rC = rU \<and> addedCompanyCount (stateOf rU) < M"
    show ?thesis
    proof (cases rU)
      case (Done l sd)
      with Suc.prems(1) st have "sU = sd" by simp
      with a Done Suc.prems(3) show ?thesis by simp
    next
      case (Next i' sn)
      with Suc.prems(1) st have "pageLoopUpTo k w (config\<lparr>MAX_COMPANIES := None\<rparr>) i' sn = Some (e, sU)"
        by simp
      moreover from a Next have "addedCompanyCount sn \<le> M" by simp
      ultimately have "\<exists>l sC. pageLoopUpTo k w (config\<lparr>MAX_COMPANIES := Some M\<rparr>) i' sn = Some (Finished l, sC) \<and>
                 addedCompanyCount sC = M \<and> prefix (appended (trace sC)) (appended (trace sU))"
        using Suc.prems(3) by (rule Suc.IH)
      with stC a Next show ?thesis by simp
    qed
  next
    assume "\<exists>sC. rC = Done i sC \<and> addedCompanyCount sC = M \<and>
                 prefix (appended (trace sC)) (appended (trace (stateOf rU)))"
    then obtain sC where rC: "rC = Done i sC" and m: "addedCompanyCount sC = M"
      and p: "prefix (appended (trace sC)) (appended (trace (stateOf rU)))" by blast
    from p grows_appended [OF later] have "prefix (appended (trace sC)) (appended (trace sU))"
      by (rule prefix_order.trans)
    with stC rC m show ?thesis by simp
  qed
qed

subsection \<open>What a run with a cap keeps true\<close>

lemma afterAppends_Nil [simp]: "afterAppends n [] = []"
  by (cases n) simp_all

lemma afterAppends_more:
  "n \<le> length (appended xs) \<Longrightarrow> afterAppends n (xs @ ys) = afterAppends n xs @ ys"
proof (induction n xs rule: afterAppends.induct)
qed simp_all

lemma afterAppends_fewer:
  "length (appended xs) < n \<Longrightarrow> afterAppends n (xs @ ys) = afterAppends (n - length (appended xs)) ys"
proof (induction n xs rule: afterAppends.induct)
qed simp_all

lemma afterAppends_none:
  "appended xs = [] \<Longrightarrow> afterAppends (Suc n) (xs @ ys) = afterAppends (Suc n) ys"
  using afterAppends_fewer [of xs "Suc n" ys] by simp

lemma withinCap_start: "withinCap M (startOfRun existing file)"
  by (simp add: withinCap_def startOfRun_def)

lemma withinCap_emit:
  assumes "withinCap M s" and "appended es = []"
    and "addedCompanyCount s < M \<or> (\<forall>e \<in> set es. \<not> isNavigation e)"
  shows "withinCap M (emit es s)"
  using assms by (auto simp: withinCap_def afterAppends_more)

lemma withinCap_wait:
  assumes "withinCap M s" and "waitIfPaused w s = Some s1"
  shows "withinCap M s1"
proof -
  from waitIfPaused_Some [OF assms(2)] obtain n where s1: "s1 = emit (replicate n PauseSleep) s" ..
  have "appended (replicate n PauseSleep) = []" by (induction n) simp_all
  with assms(1) show ?thesis unfolding s1 by (intro withinCap_emit) auto
qed

lemma withinCap_company:
  assumes inv: "withinCap M s" and lt: "addedCompanyCount s < M"
    and p: "processCompany w config link s = Some (ctl, s')"
  shows "withinCap M s'"
proof -
  from processCompany_effect [OF p] obtain pre sv where
    tr: "trace s' = trace s @ pre @ sv" and ap: "appended pre = []"
    and sv: "(sv = [] \<and> addedCompanyCount s' = addedCompanyCount s \<and>
               (ctl = Break \<longrightarrow> capReached (MAX_COMPANIES config) s)) \<or>
            (oneSave sv \<and> addedCompanyCount s' = addedCompanyCount s + 1 \<and>
               (ctl = Break \<longleftrightarrow> capReached (MAX_COMPANIES config) s'))" by blast
  from inv have len: "addedCompanyCount s = length (appended (trace s))"
    by (simp add: withinCap_def)
  from sv show ?thesis
  proof
    assume "sv = [] \<and> addedCompanyCount s' = addedCompanyCount s \<and>
               (ctl = Break \<longrightarrow> capReached (MAX_COMPANIES config) s)"
    with tr ap len lt show ?thesis by (simp add: withinCap_def)
  next
    assume a: "oneSave sv \<and> addedCompanyCount s' = addedCompanyCount s + 1 \<and>
               (ctl = Break \<longleftrightarrow> capReached (MAX_COMPANIES config) s')"
    then obtain line rest where sv': "sv = AppendCsv line # rest"
      and quiet: "\<forall>e \<in> set rest. \<not> isNavigation e" and none: "appended rest = []"
      by (auto simp: oneSave_def)
    have "afterAppends (addedCompanyCount s + 1) (trace s') = rest"
    proof -
      from len have "afterAppends (addedCompanyCount s + 1) (trace s') =
                     afterAppends 1 (pre @ sv)"
        unfolding tr using afterAppends_fewer [of "trace s" "addedCompanyCount s + 1" "pre @ sv"]
        by simp
      also have "\<dots> = rest" using ap sv' afterAppends_none [of pre 0 sv] by simp
      finally show ?thesis .
    qed
    with a tr ap len lt sv' none quiet show ?thesis by (auto simp: withinCap_def)
  qed
qed

lemma withinCap_companyLoop:
  assumes "MAX_COMPANIES config = Some M"
  shows "withinCap M s \<Longrightarrow> companyLoop w config links s = Some s' \<Longrightarrow> withinCap M s'"
proof (induction links arbitrary: s)
  case Nil
  then show ?case by simp
next
  case (Cons link rest)
  show ?case
  proof (cases "shouldStop w s \<or> capReached (MAX_COMPANIES config) s")
    case True
    with Cons.prems have "s' = s" by (auto split: if_splits)
    with Cons.prems show ?thesis by simp
  next
    case False
    with assms Cons.prems(1) have lt: "addedCompanyCount s < M"
      by (simp add: capReached_def)
    from Cons.prems False obtain s1 where w1: "waitIfPaused w s = Some s1"
      by (cases "waitIfPaused w s") auto
    from waitIfPaused_grows [OF w1] lt have lt1: "addedCompanyCount s1 < M" by simp
    from Cons.prems False w1 obtain ctl s2 where p: "processCompany w config link s1 = Some (ctl, s2)"
      by (cases "processCompany w config link s1") auto
    have inv2: "withinCap M s2"
      using withinCap_wait [OF Cons.prems(1) w1] lt1 p by (rule withinCap_company)
    show ?thesis
    proof (cases ctl)
      case Break
      with Cons.prems False w1 p have "s' = s2" by simp
      with inv2 show ?thesis by simp
    next
      case Continue
      with Cons.prems False w1 p have "companyLoop w config rest s2 = Some s'" by simp
      with inv2 show ?thesis by (rule Cons.IH)
    qed
  qed
qed

lemma withinCap_advance:
  "withinCap M s \<Longrightarrow> addedCompanyCount s < M \<Longrightarrow> withinCap M (stateOf (advance w l i s))"
  by (cases "nextPage (searchPageAt w i)") (auto simp: advance_def withinCap_emit)

lemma withinCap_pageStep:
  assumes cap: "MAX_COMPANIES config = Some M" and inv: "withinCap M s"
    and st: "pageStep w config i s = Some r"
  shows "withinCap M (stateOf r)"
proof (cases "shouldStop w s \<or> capReached (MAX_COMPANIES config) s")
  case True
  with st have "r = Done i s" by (auto simp: pageStep_def Let_def split: if_splits)
  with inv show ?thesis by simp
next
  case top: False
  with cap have lt: "addedCompanyCount s < M" by (simp add: capReached_def)
  from st top obtain s1 where w1: "waitIfPaused w s = Some s1"
    by (cases "waitIfPaused w s") (auto simp: pageStep_def Let_def split: if_splits)
  note inv1 = withinCap_wait [OF inv w1]
  from waitIfPaused_grows [OF w1] lt have lt1: "addedCompanyCount s1 < M" by simp
  show ?thesis
  proof (cases "START_PAGE config \<le> i")
    case False
    with st top w1 have "r = advance w i i s1" by (auto simp: pageStep_def Let_def split: if_splits)
    with inv1 lt1 show ?thesis by (simp add: withinCap_advance)
  next
    case True
    with st top w1 obtain s2 where
      c: "companyLoop w config (companyData (searchPageAt w i)) (emit [OpenDetailPage] s1) = Some s2"
      by (cases "companyLoop w config (companyData (searchPageAt w i)) (emit [OpenDetailPage] s1)")
         (auto simp: pageStep_def Let_def split: if_splits)
    let ?s3 = "emit [CloseDetailPage] s2"
    from inv1 have "withinCap M (emit [OpenDetailPage] s1)" by (intro withinCap_emit) simp_all
    from withinCap_companyLoop [OF cap this c] have inv3: "withinCap M ?s3"
      by (intro withinCap_emit) simp_all
    from st top w1 c True
    have "r = Done i ?s3 \<or> (r = advance w i i ?s3 \<and> \<not> capReached (MAX_COMPANIES config) ?s3)"
      by (auto simp: pageStep_def Let_def split: if_splits)
    then show ?thesis
    proof
      assume "r = Done i ?s3"
      with inv3 show ?thesis by simp
    next
      assume a: "r = advance w i i ?s3 \<and> \<not> capReached (MAX_COMPANIES config) ?s3"
      with cap have "addedCompanyCount ?s3 < M" by (simp add: capReached_def)
      with inv3 a show ?thesis by (simp add: withinCap_advance)
    qed
  qed
qed

lemma withinCap_pageLoopUpTo:
  assumes "MAX_COMPANIES config = Some M"
  shows "withinCap M s \<Longrightarrow> pageLoopUpTo n w config i s = Some (e, s') \<Longrightarrow> withinCap M s'"
proof (induction n arbitrary: i s)
  case 0
  then show ?case by simp
next
  case (Suc n)
  then obtain r where st: "pageStep w config i s = Some r"
    by (cases "pageStep w config i s") auto
  note inv = withinCap_pageStep [OF assms Suc.prems(1) st]
  show ?case
  proof (cases r)
    case (Done l sd)
    with Suc.prems st inv show ?thesis by simp
  next
    case (Next i' sn)
    with Suc.prems st have "pageLoopUpTo n w config i' sn = Some (e, s')" by simp
    with inv Next show ?thesis using Suc.IH by simp
  qed
qed

lemma prefix_is_take: "prefix xs ys \<Longrightarrow> xs = take (length xs) ys"
  by (auto simp: prefix_def)

subsection \<open>The file holds the lines appended\<close>

lemma ledgerIs_start: "ledgerIs file (startOfRun existing file)"
  by (simp add: ledgerIs_def startOfRun_def)

lemma ledgerIs_emit: "ledgerIs f s \<Longrightarrow> appended es = [] \<Longrightarrow> ledgerIs f (emit es s)"
  by (simp add: ledgerIs_def emit_def)

lemma ledgerIs_append: "ledgerIs f s \<Longrightarrow> ledgerIs f (appendCsvRecord w r g s)"
  by (auto simp: ledgerIs_def appendCsvRecord_def postRowToGas_cases Let_def emit_def
      split: option.splits sum.splits fetchOutcome.splits)

lemma ledgerIs_save:
  "saveRecordIfNew w config r s = (skipped, s1) \<Longrightarrow> ledgerIs f s \<Longrightarrow> ledgerIs f s1"
  using ledgerIs_append [of f "s\<lparr>existingCompanies := insert (normalizeCompanyName (companyName r)) (existingCompanies s)\<rparr>"]
  by (auto simp: saveRecordIfNew_def Let_def ledgerIs_def split: if_splits)

lemma ledgerIs_counted: "counted cap s = (ctl, s1) \<Longrightarrow> ledgerIs f s \<Longrightarrow> ledgerIs f s1"
  by (auto simp: counted_def Let_def ledgerIs_def)

lemma ledgerIs_persist:
  "persistCourses w config name meta u cs s = (ctl, s1) \<Longrightarrow> ledgerIs f s \<Longrightarrow> ledgerIs f s1"
  by (auto simp: persistCourses_def split: if_splits prod.splits bool.splits option.splits
      dest: ledgerIs_save ledgerIs_counted)

lemma ledgerIs_courseLoop:
  "courseLoop w name links acc s = Some (res, s') \<Longrightarrow> ledgerIs f s \<Longrightarrow> ledgerIs f s'"
  using courseLoop_pauses [of w name links acc s res s'] by (auto simp: ledgerIs_emit)

lemma ledgerIs_company:
  assumes "processCompany w config link s = Some (ctl, s')" and "ledgerIs f s"
  shows "ledgerIs f s'"
proof -
  have e: "appended es = [] \<Longrightarrow> ledgerIs f (emit es s)" for es
    using assms(2) by (rule ledgerIs_emit)
  have known: "ledgerIs f (s\<lparr>existingCompanies := X\<rparr>)" for X
    using assms(2) by (simp add: ledgerIs_def)
  have e1: "ledgerIs f (emit [Delay DELAY_MS, Goto u] s)" for u by (rule e) simp
  have e2: "ledgerIs f (emit [Delay DELAY_MS, Goto u, Delay DELAY_MS, Goto v] s)" for u v
    by (rule e) simp
  have e3: "ledgerIs f (emit [Delay DELAY_MS, Goto u, Delay DELAY_MS, Goto v, ExtractTable v'] s)"
    for u v v' by (rule e) simp
  from assms show ?thesis
    by (auto simp: processCompany_def Let_def known e1 e2 e3
        split: if_splits outlineResult.splits tableResult.splits option.splits prod.splits bool.splits
        dest: ledgerIs_save [OF _ e3] ledgerIs_counted ledgerIs_persist [OF _ e3]
              ledgerIs_courseLoop [OF _ e2] ledgerIs_persist)
qed

lemma ledgerIs_wait: "waitIfPaused w s = Some s1 \<Longrightarrow> ledgerIs f s \<Longrightarrow> ledgerIs f s1"
proof -
  assume a: "waitIfPaused w s = Some s1" and l: "ledgerIs f s"
  from waitIfPaused_Some [OF a] obtain n where s1: "s1 = emit (replicate n PauseSleep) s" ..
  have "appended (replicate n PauseSleep) = []" by (induction n) simp_all
  with l show "ledgerIs f s1" unfolding s1 by (rule ledgerIs_emit)
qed

lemma ledgerIs_companyLoop:
  "companyLoop w config links s = Some s' \<Longrightarrow> ledgerIs f s \<Longrightarrow> ledgerIs f s'"
proof (induction links arbitrary: s)
  case Nil
  then show ?case by simp
next
  case (Cons link rest)
  show ?case
  proof (cases "shouldStop w s \<or> capReached (MAX_COMPANIES config) s")
    case True
    with Cons.prems show ?thesis by (auto split: if_splits)
  next
    case False
    with Cons.prems obtain s1 where w1: "waitIfPaused w s = Some s1"
      by (cases "waitIfPaused w s") auto
    with Cons.prems False obtain ctl s2 where p: "processCompany w config link s1 = Some (ctl, s2)"
      by (cases "processCompany w config link s1") auto
    note l2 = ledgerIs_company [OF p ledgerIs_wait [OF w1 Cons.prems(2)]]
    show ?thesis
    proof (cases ctl)
      case Break
      with Cons.prems False w1 p l2 show ?thesis by simp
    next
      case Continue
      with Cons.prems False w1 p have "companyLoop w config rest s2 = Some s'" by simp
      then show ?thesis using l2 by (rule Cons.IH)
    qed
  qed
qed

lemma ledgerIs_advance: "ledgerIs f s \<Longrightarrow> ledgerIs f (stateOf (advance w l i s))"
  by (cases "nextPage (searchPageAt w i)") (auto simp: advance_def ledgerIs_emit)

lemma ledgerIs_pageStep:
  assumes st: "pageStep w config i s = Some r" and l: "ledgerIs f s"
  shows "ledgerIs f (stateOf r)"
proof (cases "shouldStop w s \<or> capReached (MAX_COMPANIES config) s")
  case True
  with st have "r = Done i s" by (auto simp: pageStep_def Let_def split: if_splits)
  with l show ?thesis by simp
next
  case top: False
  with st obtain s1 where w1: "waitIfPaused w s = Some s1"
    by (cases "waitIfPaused w s") (auto simp: pageStep_def Let_def split: if_splits)
  note l1 = ledgerIs_wait [OF w1 l]
  show ?thesis
  proof (cases "START_PAGE config \<le> i")
    case False
    with st top w1 have "r = advance w i i s1" by (auto simp: pageStep_def Let_def split: if_splits)
    with l1 show ?thesis by (simp add: ledgerIs_advance)
  next
    case True
    with st top w1 obtain s2 where
      c: "companyLoop w config (companyData (searchPageAt w i)) (emit [OpenDetailPage] s1) = Some s2"
      by (cases "companyLoop w config (companyData (searchPageAt w i)) (emit [OpenDetailPage] s1)")
         (auto simp: pageStep_def Let_def split: if_splits)
    let ?s3 = "emit [CloseDetailPage] s2"
    from l1 have "ledgerIs f (emit [OpenDetailPage] s1)" by (rule ledgerIs_emit) simp
    from ledgerIs_companyLoop [OF c this] have l3: "ledgerIs f ?s3" by (rule ledgerIs_emit) simp
    from st top w1 c True have "r = Done i ?s3 \<or> r = advance w i i ?s3"
      by (auto simp: pageStep_def Let_def split: if_splits)
    with l3 show ?thesis by (auto simp: ledgerIs_advance)
  qed
qed

lemma ledgerIs_pageLoopUpTo:
  "pageLoopUpTo n w config i s = Some (e, s') \<Longrightarrow> ledgerIs f s \<Longrightarrow> ledgerIs f s'"
proof (induction n arbitrary: i s)
  case 0
  then show ?case by simp
next
  case (Suc n)
  then obtain r where st: "pageStep w config i s = Some r"
    by (cases "pageStep w config i s") auto
  note l = ledgerIs_pageStep [OF st Suc.prems(2)]
  show ?case
  proof (cases r)
    case (Done l' sd)
    with Suc.prems st l show ?thesis by simp
  next
    case (Next i' sn)
    with Suc.prems st have "pageLoopUpTo n w config i' sn = Some (e, s')" by simp
    then show ?thesis using l Next by (simp add: Suc.IH)
  qed
qed

text \<open>The first search page of the example site, without a cap.\<close>

lemma exampleWorld_page1:
  "\<exists>sU. pageLoopUpTo (Suc 0) exampleWorld (exampleConfig None) (Suc 0) (startOfRun {} []) =
           Some (Unfinished 2, sU) \<and> length (appended (trace sU)) = 3"
  by (simp add: pageStep_def advance_def nextDisabled_def crawl_evals exampleWorld_def evals ascii_def
      waitIfPaused_not_paused)

text \<open>
  Claim C3. Take a run without a cap that, after some number of turns of the page loop, has
  appended more than \<open>M\<close> lines to the CSV file. The run with the cap \<open>M\<close>, on the same site
  and from the same file and set of known companies, ends; it has counted \<open>M\<close> added companies;
  the lines it has appended, and the file it leaves, are the first \<open>M\<close> lines of the run
  without a cap; and after its \<open>M\<close>-th append it loads no page (no \<^verbatim>\<open>goto\<close>, no table
  extraction, no click on the next button).
\<close>

theorem cap_halts_run:
  assumes u: "pageLoopUpTo k w (config\<lparr>MAX_COMPANIES := None\<rparr>) 1 (startOfRun existing file) = Some (e, sU)"
    and more: "M < length (appended (trace sU))"
  shows "\<exists>lastPage sC.
           processAllCompaniesFromSearch w (config\<lparr>MAX_COMPANIES := Some M\<rparr>) existing file =
             Some (lastPage, sC) \<and>
           addedCompanyCount sC = M \<and>
           appended (trace sC) = take M (appended (trace sU)) \<and>
           csvFile sC = file @ concat (take M (appended (trace sU))) \<and>
           filter isNavigation (afterAppends M (trace sC)) = []"
proof -
  let ?s0 = "startOfRun existing file"
  let ?cM = "config\<lparr>MAX_COMPANIES := Some M\<rparr>"
  from pageLoopUpTo_grows [OF u]
  have "addedCompanyCount sU = length (appended (trace sU))"
    by (auto simp: grows_def startOfRun_def)
  with more have "M < addedCompanyCount sU" by simp
  moreover have "addedCompanyCount ?s0 \<le> M" by (simp add: startOfRun_def)
  ultimately obtain l sC where
    c: "pageLoopUpTo k w ?cM 1 ?s0 = Some (Finished l, sC)"
    and m: "addedCompanyCount sC = M"
    and p: "prefix (appended (trace sC)) (appended (trace sU))"
    using pageLoopUpTo_capped [OF u] by blast
  have "MAX_COMPANIES ?cM = Some M" by simp
  from withinCap_pageLoopUpTo [OF this withinCap_start c] have inv: "withinCap M sC" .
  with m have len: "length (appended (trace sC)) = M"
    and quiet: "filter isNavigation (afterAppends M (trace sC)) = []"
    by (simp_all add: withinCap_def filter_empty_conv)
  from prefix_is_take [OF p] len have first: "appended (trace sC) = take M (appended (trace sU))"
    by simp
  from ledgerIs_pageLoopUpTo [OF c ledgerIs_start] first
  have "csvFile sC = file @ concat (take M (appended (trace sU)))" by (simp add: ledgerIs_def)
  with pageLoop_upTo [OF c] m quiet first show ?thesis
    by (simp add: processAllCompaniesFromSearch_def)
qed

text \<open>
  The example site with the cap 1: the first search page alone gives three new companies,
  and the run with the cap ends with the first of their lines.
\<close>

theorem cap_halts_run_witness:
  "\<exists>sU lastPage sC.
     pageLoopUpTo 1 exampleWorld (exampleConfig None) 1 (startOfRun {} []) = Some (Unfinished 2, sU) \<and>
     length (appended (trace sU)) = 3 \<and>
     processAllCompaniesFromSearch exampleWorld (exampleConfig (Some 1)) {} [] = Some (lastPage, sC) \<and>
     addedCompanyCount sC = 1 \<and>
     appended (trace sC) = take 1 (appended (trace sU)) \<and>
     csvFile sC = [] @ concat (take 1 (appended (trace sU))) \<and>
     filter isNavigation (afterAppends 1 (trace sC)) = []"
proof -
  from exampleWorld_page1 obtain sU where
    u: "pageLoopUpTo 1 exampleWorld (defaultConfig\<lparr>MAX_COMPANIES := None\<rparr>) 1 (startOfRun {} []) =
          Some (Unfinished 2, sU)"
    and three: "length (appended (trace sU)) = 3"
    by (auto simp: exampleConfig_def)
  from three have "1 < length (appended (trace sU))" by simp
  from cap_halts_run [OF u this] obtain lastPage sC where
    "processAllCompaniesFromSearch exampleWorld (defaultConfig\<lparr>MAX_COMPANIES := Some 1\<rparr>) {} [] =
       Some (lastPage, sC)"
    "addedCompanyCount sC = 1"
    "appended (trace sC) = take 1 (appended (trace sU))"
    "csvFile sC = [] @ concat (take 1 (appended (trace sU)))"
    "filter isNavigation (afterAppends 1 (trace sC)) = []" by blast
  with u three show ?thesis unfolding exampleConfig_def by blast
qed


section \<open>Pauses\<close>

lemma waitIfPaused_first:
  assumes "waitIfPaused w s = Some s1" and "isPaused w s" and "\<not> shouldStop w s"
  shows "\<exists>n. s1 = emit (PauseSleep # replicate n PauseSleep) s"
proof -
  from assms have "waitIfPaused w (emit [PauseSleep] s) = Some s1"
    by (simp add: waitIfPaused_paused)
  from waitIfPaused_Some [OF this] obtain n where
    "s1 = emit (replicate n PauseSleep) (emit [PauseSleep] s)" ..
  then have "s1 = emit (PauseSleep # replicate n PauseSleep) s" by simp
  then show ?thesis ..
qed

lemma waits_then_grows:
  assumes "waitIfPaused w s = Some s1" and "isPaused w s" and "\<not> shouldStop w s"
    and "grows s1 s'"
  shows "\<exists>rest. trace s' = trace s @ PauseSleep # rest"
proof -
  from waitIfPaused_first [OF assms(1-3)] obtain n where
    "s1 = emit (PauseSleep # replicate n PauseSleep) s" ..
  moreover from assms(4) obtain d where "trace s' = trace s1 @ d" by (auto simp: grows_def)
  ultimately have "trace s' = trace s @ PauseSleep # (replicate n PauseSleep @ d)" by simp
  then show ?thesis ..
qed

lemma pageStep_waits:
  assumes st: "pageStep w config i s = Some r"
    and top: "\<not> shouldStop w s" "\<not> capReached (MAX_COMPANIES config) s"
  shows "\<exists>s1. waitIfPaused w s = Some s1 \<and> grows s1 (stateOf r)"
proof -
  from st top obtain s1 where w1: "waitIfPaused w s = Some s1"
    by (cases "waitIfPaused w s") (auto simp: pageStep_def Let_def split: if_splits)
  have "grows s1 (stateOf r)"
  proof (cases "START_PAGE config \<le> i")
    case False
    with st top w1 have "r = advance w i i s1" by (auto simp: pageStep_def Let_def split: if_splits)
    with advance_grows [of s1 w i i] show ?thesis by simp
  next
    case True
    with st top w1 obtain s2 where
      c: "companyLoop w config (companyData (searchPageAt w i)) (emit [OpenDetailPage] s1) = Some s2"
      by (cases "companyLoop w config (companyData (searchPageAt w i)) (emit [OpenDetailPage] s1)")
         (auto simp: pageStep_def Let_def split: if_splits)
    let ?s3 = "emit [CloseDetailPage] s2"
    have "grows s1 (emit [OpenDetailPage] s1)" by (simp add: grows_emit)
    moreover note companyLoop_grows [OF c]
    moreover have "grows s2 ?s3" by (simp add: grows_emit)
    ultimately have g3: "grows s1 ?s3" using grows_trans by blast
    from st top w1 c True have "r = Done i ?s3 \<or> r = advance w i i ?s3"
      by (auto simp: pageStep_def Let_def split: if_splits)
    with g3 advance_grows [of ?s3 w i i] show ?thesis using grows_trans by auto
  qed
  with w1 show ?thesis by blast
qed

lemma companyLoop_waits:
  assumes run: "companyLoop w config (link # links) s = Some s'"
    and top: "\<not> shouldStop w s" "\<not> capReached (MAX_COMPANIES config) s"
  shows "\<exists>s1. waitIfPaused w s = Some s1 \<and> grows s1 s'"
proof -
  from run top obtain s1 where w1: "waitIfPaused w s = Some s1"
    by (cases "waitIfPaused w s") auto
  with run top obtain ctl s2 where p: "processCompany w config link s1 = Some (ctl, s2)"
    by (cases "processCompany w config link s1") auto
  note g = processCompany_grows(1) [OF p]
  have "grows s1 s'"
  proof (cases ctl)
    case Break
    with run top w1 p have "s' = s2" by simp
    with g show ?thesis by simp
  next
    case Continue
    with run top w1 p have "companyLoop w config links s2 = Some s'" by simp
    from companyLoop_grows [OF this] g show ?thesis using grows_trans by blast
  qed
  with w1 show ?thesis by blast
qed

lemma courseLoop_waits:
  assumes run: "courseLoop w name (u # us) acc s = Some (res, s')" and top: "\<not> shouldStop w s"
  shows "\<exists>s1 d. waitIfPaused w s = Some s1 \<and> s' = emit (Delay DELAY_MS # ExtractTable u # d) s1"
proof -
  from run top obtain s1 where w1: "waitIfPaused w s = Some s1"
    by (cases "waitIfPaused w s") simp_all
  let ?s2 = "emit [Delay DELAY_MS, ExtractTable u] s1"
  have "(\<exists>acc'. courseLoop w name us acc' ?s2 = Some (res, s')) \<or> s' = ?s2"
    using run top w1
    by (cases "tableAt w u") (auto simp: Let_def split: if_splits)
  then have "\<exists>d. s' = emit (Delay DELAY_MS # ExtractTable u # d) s1"
  proof
    assume "\<exists>acc'. courseLoop w name us acc' ?s2 = Some (res, s')"
    then obtain acc' where "courseLoop w name us acc' ?s2 = Some (res, s')" ..
    from courseLoop_trace [OF this] obtain d where "s' = emit d ?s2" by blast
    then have "s' = emit (Delay DELAY_MS # ExtractTable u # d) s1" by simp
    then show ?thesis ..
  next
    assume "s' = ?s2"
    then have "s' = emit (Delay DELAY_MS # ExtractTable u # []) s1" by simp
    then show ?thesis ..
  qed
  with w1 show ?thesis by blast
qed

text \<open>
  Claim C7 says that no pause wait occurs once the extraction of a company has begun.
  In the run below the operator pauses after the internship page of company A has been
  opened: the program waits there, then goes on to the course pages and appends the record.
\<close>

theorem pause_inside_company:
  "map_option (take 5 \<circ> trace \<circ> snd)
     (processCompany pausedWorld (exampleConfig None) ([65], ascii ''a/outline'') (startOfRun {} [])) =
     Some [Delay DELAY_MS, Goto (ascii ''a/outline''), Delay DELAY_MS, Goto (ascii ''a/is''), PauseSleep] \<and>
   map_option (extracted \<circ> trace \<circ> snd)
     (processCompany pausedWorld (exampleConfig None) ([65], ascii ''a/outline'') (startOfRun {} [])) =
     Some [ascii ''a/c1'', ascii ''a/c2''] \<and>
   map_option (length \<circ> appended \<circ> trace \<circ> snd)
     (processCompany pausedWorld (exampleConfig None) ([65], ascii ''a/outline'') (startOfRun {} [])) =
     Some 1"
  by (simp add: pausedWorld_A)

text \<open>
  Claim C7, amended. The pause flag is read at the top of each page iteration, at the top
  of each company iteration and at the top of each course-page iteration inside a company:
  when the flag is up there and the iteration is not ended by the stop flag or the cap,
  the iteration starts by waiting, and in the course loop the wait is followed by the
  delay and the extraction of that course page. Within the work on one company a pause
  wait occurs only immediately before the delay and extraction of a course page, and
  never for a company without course links.
\<close>

theorem pause_only_before_course_page:
  "(\<forall>r. pageStep w config i s = Some r \<and> isPaused w s \<and> \<not> shouldStop w s \<and>
        \<not> capReached (MAX_COMPANIES config) s \<longrightarrow>
      (\<exists>rest. trace (stateOf r) = trace s @ PauseSleep # rest)) \<and>
   (\<forall>s'. companyLoop w config (link # links) s = Some s' \<and> isPaused w s \<and> \<not> shouldStop w s \<and>
        \<not> capReached (MAX_COMPANIES config) s \<longrightarrow>
      (\<exists>rest. trace s' = trace s @ PauseSleep # rest)) \<and>
   (\<forall>res s'. courseLoop w name (u # us) acc s = Some (res, s') \<and> isPaused w s \<and> \<not> shouldStop w s \<longrightarrow>
      (\<exists>n rest. trace s' =
         trace s @ PauseSleep # replicate n PauseSleep @ Delay DELAY_MS # ExtractTable u # rest)) \<and>
   (\<forall>ctl s'. processCompany w config link s = Some (ctl, s') \<longrightarrow>
     (\<exists>d. trace s' = trace s @ d \<and> pausesBeforeCourse d \<and>
        (courseLinks (siteOf w (snd link)) = [] \<longrightarrow> PauseSleep \<notin> set d)))"
proof (intro conjI allI impI)
  fix r
  assume a: "pageStep w config i s = Some r \<and> isPaused w s \<and> \<not> shouldStop w s \<and>
        \<not> capReached (MAX_COMPANIES config) s"
  then obtain s1 where "waitIfPaused w s = Some s1" "grows s1 (stateOf r)"
    using pageStep_waits [of w config i s r] by blast
  with a show "\<exists>rest. trace (stateOf r) = trace s @ PauseSleep # rest"
    by (intro waits_then_grows [of w s s1]) simp_all
next
  fix s'
  assume a: "companyLoop w config (link # links) s = Some s' \<and> isPaused w s \<and> \<not> shouldStop w s \<and>
        \<not> capReached (MAX_COMPANIES config) s"
  then obtain s1 where "waitIfPaused w s = Some s1" "grows s1 s'"
    using companyLoop_waits [of w config link links s s'] by blast
  with a show "\<exists>rest. trace s' = trace s @ PauseSleep # rest"
    by (intro waits_then_grows [of w s s1]) simp_all
next
  fix res s'
  assume a: "courseLoop w name (u # us) acc s = Some (res, s') \<and> isPaused w s \<and> \<not> shouldStop w s"
  then obtain s1 d where w1: "waitIfPaused w s = Some s1"
    and s': "s' = emit (Delay DELAY_MS # ExtractTable u # d) s1"
    using courseLoop_waits [of w name u us acc s res s'] by blast
  from waitIfPaused_first [OF w1] a obtain n where
    "s1 = emit (PauseSleep # replicate n PauseSleep) s" by blast
  with s' have "trace s' =
      trace s @ PauseSleep # replicate n PauseSleep @ Delay DELAY_MS # ExtractTable u # d" by simp
  then show "\<exists>n rest. trace s' =
         trace s @ PauseSleep # replicate n PauseSleep @ Delay DELAY_MS # ExtractTable u # rest"
    by blast
next
  fix ctl s'
  assume "processCompany w config link s = Some (ctl, s')"
  from processCompany_effect [OF this] obtain pre sv where
    tr: "trace s' = trace s @ pre @ sv"
    and p: "\<forall>post. pausesBeforeCourse (pre @ post) = pausesBeforeCourse post"
    and q: "courseLinks (siteOf w (snd link)) = [] \<longrightarrow> PauseSleep \<notin> set pre"
    and sv: "sv = [] \<or> oneSave sv" by blast
  from sv have quiet: "PauseSleep \<notin> set sv" using oneSave_quiet by auto
  then have "pausesBeforeCourse (sv @ []) = pausesBeforeCourse []" by (rule pauses_pausefree)
  then have "pausesBeforeCourse (pre @ sv)" using p by simp
  with tr q quiet show "\<exists>d. trace s' = trace s @ d \<and> pausesBeforeCourse d \<and>
        (courseLinks (siteOf w (snd link)) = [] \<longrightarrow> PauseSleep \<notin> set d)"
    by (intro exI [of _ "pre @ sv"]) simp
qed

lemma pausedPagesWorld_wait:
  "waitIfPaused pausedPagesWorld (startOfRun {} []) = Some (emit [PauseSleep] (startOfRun {} []))"
  "isPaused pausedPagesWorld (startOfRun {} [])"
  "\<not> shouldStop pausedPagesWorld s"
proof -
  have p: "isPaused pausedPagesWorld (startOfRun {} [])"
    and n: "\<not> shouldStop pausedPagesWorld s" for s
    by (simp_all add: isPaused_def shouldStop_def pausedPagesWorld_def pagesWorld_def
        exampleWorld_def startOfRun_def)
  have q: "\<not> isPaused pausedPagesWorld (emit [PauseSleep] (startOfRun {} []))"
    by (simp add: isPaused_def pausedPagesWorld_def startOfRun_def)
  show "waitIfPaused pausedPagesWorld (startOfRun {} []) = Some (emit [PauseSleep] (startOfRun {} []))"
    using waitIfPaused_paused [OF p n] waitIfPaused_not_paused [OF q] by simp
  show "isPaused pausedPagesWorld (startOfRun {} [])" by (rule p)
  show "\<not> shouldStop pausedPagesWorld s" by (rule n)
qed

lemma pausedPagesWorld_pages:
  "nextPage (searchPageAt pausedPagesWorld (Suc 0)) = Button (Some (ascii ''next''))"
  "companyData (searchPageAt pausedPagesWorld i) = []"
  by (simp_all add: pausedPagesWorld_def pagesWorld_def)

lemma pausedPagesWorld_step:
  "pageStep pausedPagesWorld (exampleConfig None) 1 (startOfRun {} []) =
     Some (Next 2 (emit [PauseSleep, OpenDetailPage, CloseDetailPage, Delay DELAY_MS, ClickNext]
                     (startOfRun {} [])))"
  "companyLoop pausedPagesWorld (exampleConfig None) [([], [])] (startOfRun {} []) =
     Some (emit [PauseSleep] (startOfRun {} []))"
  by (simp_all add: pageStep_def advance_def pausedPagesWorld_wait pausedPagesWorld_pages
      pagesWorld_buttons exampleConfig_def defaultConfig_def capReached_def Let_def processCompany_def)

lemma pausedWorld_courses:
  "courseLoop pausedWorld [65] [ascii ''a/c1'', ascii ''a/c2'', ascii ''a/c3''] []
     (emit [Delay DELAY_MS, Goto (ascii ''a/outline''), Delay DELAY_MS, Goto (ascii ''a/is'')]
        (startOfRun {} [])) =
   Some (Some [phoneOnly\<lparr>courseCompanyName := [65]\<rparr>,
               (phoneAndEmail (ascii ''a/c2''))\<lparr>courseCompanyName := [65]\<rparr>],
         emit [Delay DELAY_MS, Goto (ascii ''a/outline''), Delay DELAY_MS, Goto (ascii ''a/is''),
               PauseSleep, Delay DELAY_MS, ExtractTable (ascii ''a/c1''),
               Delay DELAY_MS, ExtractTable (ascii ''a/c2'')] (startOfRun {} []))"
  by (simp add: crawl_evals pausedWorld_def exampleWorld_def evals ascii_def
      waitIfPaused_paused waitIfPaused_not_paused)

theorem pause_only_before_course_page_witness:
  "(\<exists>rest. trace (stateOf (Next 2 (emit [PauseSleep, OpenDetailPage, CloseDetailPage,
                                          Delay DELAY_MS, ClickNext] (startOfRun {} [])))) =
            trace (startOfRun {} []) @ PauseSleep # rest) \<and>
   (\<exists>rest. trace (emit [PauseSleep] (startOfRun {} [])) = trace (startOfRun {} []) @ PauseSleep # rest) \<and>
   (\<exists>n rest. [Delay DELAY_MS, Goto (ascii ''a/outline''), Delay DELAY_MS, Goto (ascii ''a/is''),
               PauseSleep, Delay DELAY_MS, ExtractTable (ascii ''a/c1''),
               Delay DELAY_MS, ExtractTable (ascii ''a/c2'')] =
      [Delay DELAY_MS, Goto (ascii ''a/outline''), Delay DELAY_MS, Goto (ascii ''a/is'')] @
      PauseSleep # replicate n PauseSleep @ Delay DELAY_MS # ExtractTable (ascii ''a/c1'') # rest) \<and>
   (\<exists>s'. processCompany pausedWorld (exampleConfig None) ([65], ascii ''a/outline'') (startOfRun {} []) =
          Some (Continue, s') \<and>
        pausesBeforeCourse (trace s') \<and> PauseSleep \<in> set (trace s'))"
proof -
  let ?s0 = "startOfRun {} []"
  let ?s4 = "emit [Delay DELAY_MS, Goto (ascii ''a/outline''), Delay DELAY_MS, Goto (ascii ''a/is'')] ?s0"
  have cap: "\<not> capReached (MAX_COMPANIES (exampleConfig None)) ?s0"
    by (simp add: capReached_def exampleConfig_def)
  note t = pause_only_before_course_page [of pausedPagesWorld "exampleConfig None" 1 ?s0
      "([], [])" "[]"]
  from t [THEN conjunct1, rule_format, of "Next 2 (emit [PauseSleep, OpenDetailPage, CloseDetailPage,
                                          Delay DELAY_MS, ClickNext] ?s0)"]
    pausedPagesWorld_step(1) pausedPagesWorld_wait(2,3) cap
  have page: "\<exists>rest. trace (stateOf (Next 2 (emit [PauseSleep, OpenDetailPage, CloseDetailPage,
                                          Delay DELAY_MS, ClickNext] ?s0))) =
            trace ?s0 @ PauseSleep # rest" by simp
  from t [THEN conjunct2, THEN conjunct1, rule_format, of "emit [PauseSleep] ?s0"]
    pausedPagesWorld_step(2) pausedPagesWorld_wait(2,3) cap
  have company: "\<exists>rest. trace (emit [PauseSleep] ?s0) = trace ?s0 @ PauseSleep # rest" by simp
  have p4: "isPaused pausedWorld ?s4" "\<not> shouldStop pausedWorld ?s4"
    by (simp_all add: isPaused_def shouldStop_def pausedWorld_def exampleWorld_def startOfRun_def)
  note c = pause_only_before_course_page [of pausedWorld "exampleConfig None" 1 ?s4
      "([65], ascii ''a/outline'')" "[]" "[65]" "ascii ''a/c1''" "[ascii ''a/c2'', ascii ''a/c3'']" "[]"]
  from c [THEN conjunct2, THEN conjunct2, THEN conjunct1, rule_format, OF conjI [OF pausedWorld_courses conjI [OF p4]]]
  have course: "\<exists>n rest. [Delay DELAY_MS, Goto (ascii ''a/outline''), Delay DELAY_MS, Goto (ascii ''a/is''),
               PauseSleep, Delay DELAY_MS, ExtractTable (ascii ''a/c1''),
               Delay DELAY_MS, ExtractTable (ascii ''a/c2'')] =
      [Delay DELAY_MS, Goto (ascii ''a/outline''), Delay DELAY_MS, Goto (ascii ''a/is'')] @
      PauseSleep # replicate n PauseSleep @ Delay DELAY_MS # ExtractTable (ascii ''a/c1'') # rest"
    by (simp add: startOfRun_def)
  from pausedWorld_A obtain s' where
    run: "processCompany pausedWorld (exampleConfig None) ([65], ascii ''a/outline'') ?s0 =
          Some (Continue, s')"
    and p: "PauseSleep \<in> set (trace s')" by simp
  from pause_only_before_course_page [of pausedWorld "exampleConfig None" 1 ?s0
      "([65], ascii ''a/outline'')", THEN conjunct2, THEN conjunct2, THEN conjunct2, rule_format, OF run]
  obtain d where "trace s' = trace ?s0 @ d" "pausesBeforeCourse d" by blast
  then have "pausesBeforeCourse (trace s')" by (simp add: startOfRun_def)
  with run p page company course show ?thesis by blast
qed


section \<open>The empty name\<close>

lemma savesUnder_refl [simp]: "savesUnder name s s"
  by (auto simp: savesUnder_def)

lemma savesUnder_trans: "savesUnder name a b \<Longrightarrow> savesUnder name b c \<Longrightarrow> savesUnder name a c"
  unfolding savesUnder_def
  apply (elim exE conjE)
  subgoal for d e
    apply (rule exI [of _ "d @ e"])
    apply auto
    done
  done

lemma savesUnder_emit: "appended es = [] \<Longrightarrow> savesUnder name s (emit es s)"
  by (auto simp: savesUnder_def)

lemma savesUnder_known: "savesUnder name s (s\<lparr>existingCompanies := insert (normalizeCompanyName name) (existingCompanies s)\<rparr>)"
  by (auto simp: savesUnder_def)

lemma appendCsvRecord_line:
  "\<exists>rest. trace (appendCsvRecord w r g s) =
      trace s @ AppendCsv (csvLine r (listSourceOf (timestampAt w (length (trace s))))) # rest \<and>
      appended rest = []"
  by (auto simp: appendCsvRecord_def postRowToGas_cases Let_def emit_def
      split: option.splits sum.splits fetchOutcome.splits)

lemma savesUnder_save:
  assumes "saveRecordIfNew w config r s = (skipped, s1)"
  shows "savesUnder (companyName r) s s1"
proof (cases "normalizeCompanyName (companyName r) \<in> existingCompanies s")
  case True
  with assms have "s1 = s" by (simp add: saveRecordIfNew_def)
  then show ?thesis by simp
next
  case False
  let ?s0 = "s\<lparr>existingCompanies := insert (normalizeCompanyName (companyName r)) (existingCompanies s)\<rparr>"
  from False assms have s1: "s1 = appendCsvRecord w r (getGasConfig config) ?s0"
    by (simp add: saveRecordIfNew_def Let_def)
  from appendCsvRecord_line [of w r "getGasConfig config" ?s0] obtain rest where
    "trace s1 = trace s @ AppendCsv (csvLine r (listSourceOf (timestampAt w (length (trace s))))) # rest"
    "appended rest = []" unfolding s1 by auto
  moreover have "existingCompanies s1 = insert (normalizeCompanyName (companyName r)) (existingCompanies s)"
    unfolding s1 by simp
  ultimately show ?thesis unfolding savesUnder_def
    by (intro exI [of _ "AppendCsv (csvLine r (listSourceOf (timestampAt w (length (trace s))))) # rest"])
       auto
qed

lemma savesUnder_counted:
  "counted cap s = (ctl, s1) \<Longrightarrow> savesUnder name s s1"
  by (auto simp: counted_def Let_def savesUnder_def)

lemma savesUnder_saved:
  assumes "(case saveRecordIfNew w config r s of
              (True, s4) \<Rightarrow> (Continue, s4)
            | (False, s4) \<Rightarrow> counted cap s4) = (ctl, s1)"
  shows "savesUnder (companyName r) s s1"
proof (cases "saveRecordIfNew w config r s")
  case (Pair skipped s4)
  note sv = savesUnder_save [OF Pair]
  show ?thesis
  proof (cases skipped)
    case True
    with assms Pair sv show ?thesis by simp
  next
    case False
    with assms Pair have "counted cap s4 = (ctl, s1)" by simp
    from savesUnder_trans [OF sv savesUnder_counted [OF this]] show ?thesis .
  qed
qed

lemma savesUnder_persist:
  assumes "persistCourses w config name meta u cs s = (ctl, s1)"
  shows "savesUnder name s s1"
proof (cases "cs = []")
  case True
  with assms have "(case saveRecordIfNew w config (noTableRecord name meta u) s of
              (True, s4) \<Rightarrow> (Continue, s4)
            | (False, s4) \<Rightarrow> counted (MAX_COMPANIES config) s4) = (ctl, s1)"
    by (simp add: persistCourses_def)
  from savesUnder_saved [OF this] show ?thesis by (simp add: noTableRecord_def)
next
  case False
  then obtain b where b: "bestCourse cs = Some b" using bestCourse_first_max [of cs] by auto
  show ?thesis
  proof (cases "saveRecordIfNew w config (courseRecord name meta b) s")
    case (Pair skipped s4)
    from savesUnder_save [OF Pair] have sv: "savesUnder name s s4" by (simp add: courseRecord_def)
    show ?thesis
    proof (cases skipped)
      case True
      with assms False b Pair have "s1 = s4" by (auto simp: persistCourses_def)
      with sv show ?thesis by simp
    next
      case nk: False
      with assms False b Pair have "counted (MAX_COMPANIES config) s4 = (ctl, s1)"
        by (simp add: persistCourses_def)
      from savesUnder_trans [OF sv savesUnder_counted [OF this]] show ?thesis .
    qed
  qed
qed

lemma savesUnder_courseLoop:
  "courseLoop w name links acc s = Some (res, s') \<Longrightarrow> savesUnder n s s'"
  using courseLoop_pauses [of w name links acc s res s'] by (auto simp: savesUnder_emit)

lemma savesUnder_company:
  assumes run: "processCompany w config link s = Some (ctl, s')"
  shows "savesUnder (fst link) s s'"
proof -
  let ?name = "fst link"
  have e: "appended es = [] \<Longrightarrow> savesUnder ?name s (emit es s)" for es
    by (rule savesUnder_emit)
  have e1: "savesUnder ?name s (emit [Delay DELAY_MS, Goto u] s)" for u by (rule e) simp
  have e2: "savesUnder ?name s (emit [Delay DELAY_MS, Goto u, Delay DELAY_MS, Goto v] s)" for u v
    by (rule e) simp
  have e3: "savesUnder ?name s (emit [Delay DELAY_MS, Goto u, Delay DELAY_MS, Goto v, ExtractTable v'] s)"
    for u v v' by (rule e) simp
  have nc: "?name \<noteq> [] \<Longrightarrow> companyName (noCourseRecord ?name meta u) = ?name" for meta u
    by (simp add: noCourseRecord_def orElse_def)
  have save3: "savesUnder ?name s s4"
    if ne: "?name \<noteq> []"
      and sv: "saveRecordIfNew w config (noCourseRecord ?name meta v')
        (emit [Delay DELAY_MS, Goto u, Delay DELAY_MS, Goto v, ExtractTable v'] s) = (sk, s4)"
    for meta u v v' sk s4
  proof -
    from savesUnder_save [OF sv] nc [OF ne]
    have "savesUnder ?name (emit [Delay DELAY_MS, Goto u, Delay DELAY_MS, Goto v, ExtractTable v'] s) s4"
      by simp
    with e3 show ?thesis by (rule savesUnder_trans)
  qed
  have persist3: "persistCourses w config ?name meta v' cs
        (emit [Delay DELAY_MS, Goto u, Delay DELAY_MS, Goto v, ExtractTable v'] s) = (c, s4) \<Longrightarrow>
      savesUnder ?name s s4" for meta u v v' cs c s4
    using savesUnder_trans [OF e3 savesUnder_persist] by blast
  have counted': "savesUnder ?name s s4 \<Longrightarrow> counted cap s4 = (c, s5) \<Longrightarrow> savesUnder ?name s s5"
    for s4 cap c s5 using savesUnder_trans [OF _ savesUnder_counted] by blast
  have course2: "courseLoop w ?name links [] (emit [Delay DELAY_MS, Goto u, Delay DELAY_MS, Goto v] s) =
        Some (res, s3) \<Longrightarrow> savesUnder ?name s s3" for links u v res s3
    using savesUnder_trans [OF e2 savesUnder_courseLoop] by blast
  have persist': "savesUnder ?name s s3 \<Longrightarrow> persistCourses w config ?name meta v' cs s3 = (c, s4) \<Longrightarrow>
      savesUnder ?name s s4" for s3 meta v' cs c s4
    using savesUnder_trans [OF _ savesUnder_persist] by blast
  from run show ?thesis
    by (auto simp: processCompany_def Let_def savesUnder_known e1 e2 e3
        split: if_splits outlineResult.splits tableResult.splits option.splits prod.splits bool.splits
        dest: save3 persist3 counted' course2 persist')
qed

text \<open>Company B of the example site: one line is written.\<close>

lemma exampleWorld_B:
  "\<exists>s'. processCompany exampleWorld (exampleConfig None) ([66], ascii ''b/outline'') (startOfRun {} []) =
            Some (Continue, s') \<and> length (appended (trace s')) = 1"
  by (simp add: crawl_evals exampleWorld_def evals ascii_def)

text \<open>
  Claim C9 says that a record carrying an empty name is still persisted, under a fallback
  label. On the example site the link to the page of company B, given with an empty name,
  is skipped: nothing is loaded and nothing is written, where the same link with the name
  of the company gives one line in the file.
\<close>

theorem empty_name_link_is_skipped:
  "processCompany exampleWorld (exampleConfig None) ([], ascii ''b/outline'') (startOfRun {} []) =
     Some (Continue, startOfRun {} []) \<and>
   companyLoop exampleWorld (exampleConfig None) [([], ascii ''b/outline'')] (startOfRun {} []) =
     Some (startOfRun {} []) \<and>
   appended (trace (startOfRun {} [])) = [] \<and>
   csvFile (startOfRun {} []) = [] \<and>
   map_option (length \<circ> appended \<circ> trace \<circ> snd)
     (processCompany exampleWorld (exampleConfig None) ([66], ascii ''b/outline'') (startOfRun {} [])) =
     Some 1"
proof -
  have skip: "processCompany exampleWorld (exampleConfig None) ([], ascii ''b/outline'') (startOfRun {} []) =
     Some (Continue, startOfRun {} [])"
    by (simp add: processCompany_def)
  have "\<not> capReached (MAX_COMPANIES (exampleConfig None)) (startOfRun {} [])"
    by (simp add: capReached_def exampleConfig_def)
  with skip have "companyLoop exampleWorld (exampleConfig None) [([], ascii ''b/outline'')] (startOfRun {} []) =
     Some (startOfRun {} [])" by simp
  moreover from exampleWorld_B have "map_option (length \<circ> appended \<circ> trace \<circ> snd)
     (processCompany exampleWorld (exampleConfig None) ([66], ascii ''b/outline'') (startOfRun {} [])) =
     Some 1" by auto
  ultimately show ?thesis using skip by (simp add: startOfRun_def)
qed

text \<open>
  Claim C9, amended. The existence probe and the check-and-insert guard return false for
  the empty raw name and leave the set as it is. A search-result link whose name is empty
  is skipped before anything is probed, loaded, inserted or persisted. Every line that the
  work on a link appends is the line of a record carrying the name of that link, which is
  not empty, and at most the identity of that name is added to the set. The record for a
  company without course pages takes the fallback label in place of an empty name only.
\<close>

theorem empty_name_guards:
  "checkCompanyExists [] existing = False \<and>
   checkAndAddCompany [] existing = (False, existing) \<and>
   processCompany w config ([], url) s = Some (Continue, s) \<and>
   companyName (noCourseRecord name meta isPageUrl) = (if name = [] then nameUnknown else name) \<and>
   (\<forall>ctl s'. processCompany w config link s = Some (ctl, s') \<longrightarrow>
      (\<exists>d. trace s' = trace s @ d \<and>
           (\<forall>line \<in> set (appended d).
              fst link \<noteq> [] \<and> (\<exists>r ls. companyName r = fst link \<and> line = csvLine r ls)) \<and>
           existingCompanies s' \<subseteq> insert (normalizeCompanyName (fst link)) (existingCompanies s) \<and>
           (fst link = [] \<longrightarrow> existingCompanies s' = existingCompanies s)))"
proof (intro conjI allI impI)
  show "checkCompanyExists [] existing = False" by (simp add: checkCompanyExists_def)
  show "checkAndAddCompany [] existing = (False, existing)" by (simp add: checkAndAddCompany_def)
  show skip: "processCompany w config ([], url) s = Some (Continue, s)" for url
    by (simp add: processCompany_def)
  show "companyName (noCourseRecord name meta isPageUrl) = (if name = [] then nameUnknown else name)"
    by (simp add: noCourseRecord_def orElse_def)
  fix ctl s'
  assume run: "processCompany w config link s = Some (ctl, s')"
  from savesUnder_company [OF run] obtain d where d: "trace s' = trace s @ d"
    "\<forall>line \<in> set (appended d). \<exists>r ls. companyName r = fst link \<and> line = csvLine r ls"
    "existingCompanies s' \<subseteq> insert (normalizeCompanyName (fst link)) (existingCompanies s)"
    by (auto simp: savesUnder_def)
  have same: "s' = s" if "fst link = []"
  proof -
    from that have "link = ([], snd link)" by (cases link) simp
    with skip [of "snd link"] run show ?thesis by simp
  qed
  have "appended d = []" if "fst link = []"
    using same [OF that] d(1) by simp
  with d same show "\<exists>d. trace s' = trace s @ d \<and>
           (\<forall>line \<in> set (appended d).
              fst link \<noteq> [] \<and> (\<exists>r ls. companyName r = fst link \<and> line = csvLine r ls)) \<and>
           existingCompanies s' \<subseteq> insert (normalizeCompanyName (fst link)) (existingCompanies s) \<and>
           (fst link = [] \<longrightarrow> existingCompanies s' = existingCompanies s)"
    by (intro exI [of _ d]) auto
qed

theorem empty_name_guards_witness:
  "\<exists>s' r ls. processCompany exampleWorld (exampleConfig None) ([66], ascii ''b/outline'') (startOfRun {} []) =
            Some (Continue, s') \<and>
      appended (trace s') = [csvLine r ls] \<and> companyName r = [66] \<and>
      existingCompanies s' \<subseteq> {normalizeCompanyName [66]}"
proof -
  from exampleWorld_B obtain s' where
    run: "processCompany exampleWorld (exampleConfig None) ([66], ascii ''b/outline'') (startOfRun {} []) =
            Some (Continue, s')"
    and one: "length (appended (trace s')) = 1" by blast
  from empty_name_guards [of "{}" exampleWorld "exampleConfig None" "[]" "startOfRun {} []" "[]"
      undefined "[]" "([66], ascii ''b/outline'')",
      THEN conjunct2, THEN conjunct2, THEN conjunct2, THEN conjunct2, rule_format, OF run]
  obtain d where d: "trace s' = trace (startOfRun {} []) @ d"
    "\<forall>line \<in> set (appended d). \<exists>r ls. companyName r = [66] \<and> line = csvLine r ls"
    "existingCompanies s' \<subseteq> insert (normalizeCompanyName [66]) (existingCompanies (startOfRun {} []))"
    by auto
  from d(1) have tr: "trace s' = d" by (simp add: startOfRun_def)
  with one obtain line where line: "appended d = [line]"
    by (cases "appended d") (auto simp: length_Suc_conv)
  with d(2) obtain r ls where "companyName r = [66]" "line = csvLine r ls" by auto
  with line tr d(3) run show ?thesis by (auto simp: startOfRun_def)
qed


section \<open>The file from one run to the next\<close>

lemmas csv_evals = csvHeader_def headerColumns_def comma_def lf_def dquote_def cr_def
  pushRow_def rowHasContent_def trim_def isWhiteSpace_def

lemma trim_csvHeader: "trim csvHeader = joinWith comma headerColumns"
  by (simp add: csv_evals)

lemma csvHeader_trimmed: "csvHeader = trim csvHeader @ [lf]"
  by (simp add: trim_csvHeader) (simp add: csvHeader_def)

lemma empty_file_header: "withCsvHeader (Some []) = trim csvHeader"
  by (simp add: withCsvHeader_def trim_csvHeader) (simp add: csv_evals)

lemma header_alone_seeds_nothing:
  "loadExistingCompanyNames (Some (trim csvHeader)) = {}"
  "loadExistingCompanyNames (Some csvHeader) = {}"
  by (simp_all add: loadExistingCompanyNames_def trim_csvHeader)
     (simp_all add: parseCsvContent_def csv_evals)

lemma plainLine:
  "csvLine plainRecord (listSourceOf (timestampAt exampleWorld t)) =
   csvLine plainRecord (listSourceOf (ascii ''2026-01-02 03:04:05''))"
  by (simp add: exampleWorld_def)

lemma savedOn_file:
  assumes "loadExistingCompanyNames (Some (withCsvHeader file)) = seeded"
    and "[65] \<notin> seeded"
  shows "csvFile (savedOn file) =
           withCsvHeader file @ csvLine plainRecord (listSourceOf (ascii ''2026-01-02 03:04:05''))"
    and "existingCompanies (savedOn file) = insert [65] seeded"
proof -
  have n: "normalizeCompanyName (companyName plainRecord) = [65]"
    by (simp add: plainRecord_def evals)
  show "csvFile (savedOn file) =
           withCsvHeader file @ csvLine plainRecord (listSourceOf (ascii ''2026-01-02 03:04:05''))"
    using assms
    by (simp add: savedOn_def saveRecordIfNew_def n Let_def appendCsvRecord_def startOfRun_def
        exampleConfig_def plainLine)
  show "existingCompanies (savedOn file) = insert [65] seeded"
    using assms
    by (simp add: savedOn_def saveRecordIfNew_def n Let_def startOfRun_def)
qed

lemma glued_to_header:
  "withCsvHeader (Some (trim csvHeader @ csvLine plainRecord (listSourceOf (ascii ''2026-01-02 03:04:05'')))) =
     csvHeader"
  "loadExistingCompanyNames
     (Some (trim csvHeader @ csvLine plainRecord (listSourceOf (ascii ''2026-01-02 03:04:05'')))) = {}"
proof -
  show "withCsvHeader (Some (trim csvHeader @ csvLine plainRecord (listSourceOf (ascii ''2026-01-02 03:04:05'')))) =
     csvHeader"
    by (simp add: withCsvHeader_def trim_csvHeader)
       (simp add: csv_evals csvLine_def quoted_def plainRecord_def listSourceOf_def ascii_def Let_def)
  show "loadExistingCompanyNames
     (Some (trim csvHeader @ csvLine plainRecord (listSourceOf (ascii ''2026-01-02 03:04:05'')))) = {}"
    by (simp add: loadExistingCompanyNames_def trim_csvHeader)
       (simp add: parseCsvContent_def csv_evals csvLine_def quoted_def plainRecord_def listSourceOf_def
          ascii_def)
qed

lemma after_header:
  "withCsvHeader (Some (csvHeader @ csvLine plainRecord (listSourceOf (ascii ''2026-01-02 03:04:05'')))) =
     csvHeader @ csvLine plainRecord (listSourceOf (ascii ''2026-01-02 03:04:05''))"
  "loadExistingCompanyNames
     (Some (csvHeader @ csvLine plainRecord (listSourceOf (ascii ''2026-01-02 03:04:05'')))) = {[65]}"
proof -
  show "withCsvHeader (Some (csvHeader @ csvLine plainRecord (listSourceOf (ascii ''2026-01-02 03:04:05'')))) =
     csvHeader @ csvLine plainRecord (listSourceOf (ascii ''2026-01-02 03:04:05''))"
    by (simp add: withCsvHeader_def trim_csvHeader)
       (simp add: csv_evals csvLine_def quoted_def plainRecord_def listSourceOf_def ascii_def Let_def)
  show "loadExistingCompanyNames
     (Some (csvHeader @ csvLine plainRecord (listSourceOf (ascii ''2026-01-02 03:04:05'')))) = {[65]}"
    by (simp add: loadExistingCompanyNames_def)
       (simp add: parseCsvContent_def csv_evals csvLine_def quoted_def plainRecord_def listSourceOf_def
          ascii_def seedRow_def evals Let_def)
qed

lemma sheet_file:
  "withCsvHeader (Some sheetText) = sheetText"
  "loadExistingCompanyNames (Some sheetText) = {[66]}"
  "withCsvHeader (Some (sheetText @ csvLine plainRecord (listSourceOf (ascii ''2026-01-02 03:04:05'')))) =
     sheetText @ csvLine plainRecord (listSourceOf (ascii ''2026-01-02 03:04:05''))"
  "loadExistingCompanyNames
     (Some (sheetText @ csvLine plainRecord (listSourceOf (ascii ''2026-01-02 03:04:05'')))) = {[66]}"
proof -
  show "withCsvHeader (Some sheetText) = sheetText"
    by (simp add: withCsvHeader_def trim_csvHeader)
       (simp add: sheetText_def csv_evals Let_def)
  show "loadExistingCompanyNames (Some sheetText) = {[66]}"
    by (simp add: loadExistingCompanyNames_def)
       (simp add: sheetText_def parseCsvContent_def csv_evals seedRow_def evals Let_def)
  show "withCsvHeader (Some (sheetText @ csvLine plainRecord (listSourceOf (ascii ''2026-01-02 03:04:05'')))) =
     sheetText @ csvLine plainRecord (listSourceOf (ascii ''2026-01-02 03:04:05''))"
    by (simp add: withCsvHeader_def trim_csvHeader)
       (simp add: sheetText_def csv_evals csvLine_def quoted_def plainRecord_def listSourceOf_def
          ascii_def Let_def)
  show "loadExistingCompanyNames
     (Some (sheetText @ csvLine plainRecord (listSourceOf (ascii ''2026-01-02 03:04:05'')))) = {[66]}"
    by (simp add: loadExistingCompanyNames_def)
       (simp add: sheetText_def parseCsvContent_def csv_evals csvLine_def quoted_def plainRecord_def
          listSourceOf_def ascii_def seedRow_def evals Let_def)
qed

text \<open>
  Claim C10. The line that \<^verbatim>\<open>appendCsvRecord\<close> writes parses back to the values written
  (the round trip of one line, above), so that the identities seeded from the file on the
  next run are those written in this run. The second part needs the file to end with a
  line feed when the line is appended, which \<^verbatim>\<open>ensureCsvHeader\<close> provides for a file it
  creates and not for one it finds. The runs below save company A. On an existing empty
  file the header is written without its line feed, the line of A is glued to it, the
  next run seeds nothing, and its \<^verbatim>\<open>ensureCsvHeader\<close> replaces that first line, the record
  with it, by the header. On a file synced from a spreadsheet export, which has no final
  line break, the line of A is glued to the row of company B, and the next run seeds B
  only. With no file at the start, the next run seeds A.
\<close>

theorem first_line_glued_without_line_feed:
  "withCsvHeader (Some []) = trim csvHeader \<and>
   trim csvHeader @ [lf] = csvHeader \<and>
   existingCompanies (savedOn (Some [])) = {[65]} \<and>
   csvFile (savedOn (Some [])) =
     trim csvHeader @ csvLine plainRecord (listSourceOf (ascii ''2026-01-02 03:04:05'')) \<and>
   loadExistingCompanyNames (Some (csvFile (savedOn (Some [])))) = {} \<and>
   withCsvHeader (Some (csvFile (savedOn (Some [])))) = csvHeader \<and>
   seededNext (savedOn (Some [])) = {} \<and>
   existingCompanies (savedOn (Some sheetText)) = {[65], [66]} \<and>
   csvFile (savedOn (Some sheetText)) =
     sheetText @ csvLine plainRecord (listSourceOf (ascii ''2026-01-02 03:04:05'')) \<and>
   seededNext (savedOn (Some sheetText)) = {[66]} \<and>
   withCsvHeader None = csvHeader \<and>
   existingCompanies (savedOn None) = {[65]} \<and>
   csvFile (savedOn None) =
     csvHeader @ csvLine plainRecord (listSourceOf (ascii ''2026-01-02 03:04:05'')) \<and>
   seededNext (savedOn None) = {[65]}"
proof -
  have ne: "[65] \<notin> ({} :: jsstring set)" "[65] \<notin> {[66 :: nat]}" by simp_all
  have none: "withCsvHeader None = csvHeader" by (simp add: withCsvHeader_def)
  have h0: "loadExistingCompanyNames (Some (withCsvHeader (Some []))) = {}"
    by (simp add: empty_file_header header_alone_seeds_nothing)
  have hn: "loadExistingCompanyNames (Some (withCsvHeader None)) = {}"
    by (simp add: none header_alone_seeds_nothing)
  have hs: "loadExistingCompanyNames (Some (withCsvHeader (Some sheetText))) = {[66]}"
    by (simp add: sheet_file)
  note e = savedOn_file [OF h0 ne(1)]
  note n = savedOn_file [OF hn ne(1)]
  note s = savedOn_file [OF hs ne(2)]
  show ?thesis
    by (simp add: e n s seededNext_def empty_file_header none glued_to_header after_header sheet_file
        csvHeader_trimmed [symmetric] header_alone_seeds_nothing)
qed

end
